theory Spec2Isabelle
  imports Main "HOL-Library.Word" "HOL-Library.Sublist"
begin

section \<open>The Giscus diagnostic script (check-giscus.js)\<close>

text \<open>
  The script drives one browser session through Playwright. Everything it does is either a
  call into the browser or the file system, an event that the browser delivers to one of the
  four listeners while the script waits in an \<^verbatim>\<open>await\<close>, or a line printed to the console.
  The model runs the script against an environment that fixes, for every call site, the events
  delivered during the call and whether the call returns or throws. The run yields the trace of
  calls, events and console lines in the order they happen, the four collected arrays and the
  files on disk.
\<close>

subsection \<open>Values\<close>

text \<open>
  A JavaScript string is a sequence of UTF-16 code units; \<^verbatim>\<open>length\<close>, \<^verbatim>\<open>includes\<close> and
  \<^verbatim>\<open>substring\<close> count code units. String literals of the source that are only compared or
  passed on (selectors, paths, attribute names) are ASCII and kept as HOL strings.
\<close>

type_synonym jsstring = "16 word list"

definition lit :: "string \<Rightarrow> jsstring" where
  "lit s = map (\<lambda>c. of_nat (of_char c)) s"

definition js_includes :: "jsstring \<Rightarrow> jsstring \<Rightarrow> bool" where
  "js_includes s pat = sublist pat s"

text \<open>Truthiness of a value that is a string, \<^verbatim>\<open>null\<close> or \<^verbatim>\<open>undefined\<close>.\<close>

definition truthy :: "jsstring option \<Rightarrow> bool" where
  "truthy v = (case v of None \<Rightarrow> False | Some s \<Rightarrow> s \<noteq> [])"

datatype js_error = JsError jsstring

datatype handle = ElementHandle

record request_rec =
  req_url :: jsstring
  req_method :: jsstring
  req_headers :: "(jsstring \<times> jsstring) list"
  req_postData :: "jsstring option"

record response_rec =
  res_url :: jsstring
  res_status :: int
  res_statusText :: jsstring

record console_rec =
  log_type :: jsstring
  log_text :: jsstring
  log_location :: "jsstring \<times> int \<times> int"

record pageerror_rec =
  err_message :: jsstring
  err_stack :: "jsstring option"

text \<open>The report object of lines 178-187.\<close>

record report =
  rep_timestamp :: jsstring
  rep_url :: string
  rep_giscusScript :: string
  rep_giscusIframe :: string
  rep_requests :: "request_rec list"
  rep_responses :: "response_rec list"
  rep_consoleLogs :: "console_rec list"
  rep_pageErrors :: "pageerror_rec list"

text \<open>The four kinds of page event the script listens to (lines 10, 22, 33, 45).\<close>

datatype event =
  Request request_rec
| Response response_rec
| Console console_rec
| PageError pageerror_rec

text \<open>The three variables that hold an element handle.\<close>

datatype var = GiscusScript | GiscusIframe | GiscusContainer

text \<open>
  The calls the script makes into Playwright and \<^verbatim>\<open>fs\<close>, with their arguments:
  \<^verbatim>\<open>launch({headless})\<close>, \<^verbatim>\<open>goto(url, {waitUntil, timeout})\<close>, \<^verbatim>\<open>page.$(selector)\<close>,
  \<^verbatim>\<open>writeFileSync(path, ...)\<close>, \<^verbatim>\<open>screenshot({path, fullPage})\<close>. What a call that returned
  has written is kept with the files of the state.
\<close>

datatype op =
  Launch bool
| NewContext
| NewPage
| Goto string string nat
| WaitForTimeout nat
| Query string
| GetAttribute var string
| Evaluate var
| InnerHTML var
| WriteFileSync string
| Screenshot string bool
| Close

text \<open>
  A console line is identified by the source line of its \<^verbatim>\<open>console.log\<close> or
  \<^verbatim>\<open>console.error\<close> call (17, 28, 40, 50, 54, ..., 201, 204) and carries the values the call
  interpolates, in the order they appear. The rendering of a line to text is not modelled:
  \<open>Upper s\<close> stands for \<^verbatim>\<open>s.toUpperCase()\<close>, which line 40 prints, and is not computed.
  Line 204 is the \<^verbatim>\<open>console.error\<close> of the catch clause; lines 103, 119 and 134 are the
  warnings for a long iframe address, a long request address and a failed response.
\<close>

datatype val =
  Str jsstring | Upper jsstring | Opt "jsstring option" | Num int | Key string | Err js_error

datatype line = Line nat "val list"

datatype action = Call op | Event event | Out line

text \<open>
  A file holds the report that \<^verbatim>\<open>JSON.stringify(report, null, 2)\<close> serializes (the JSON text
  itself is not modelled), or a picture.
\<close>

datatype content = Json report | Png

subsection \<open>The environment\<close>

text \<open>
  What an awaited call does: the page events delivered to the listeners while the script is
  suspended, then the value it resolves to, or the error it rejects with.
\<close>

type_synonym 'a awaited = "event list \<times> (js_error + 'a)"

text \<open>
  One field for each call site. \<^verbatim>\<open>launch\<close>, \<^verbatim>\<open>newContext\<close> and \<^verbatim>\<open>newPage\<close> run before any
  listener is attached and \<^verbatim>\<open>writeFileSync\<close> is synchronous, so no event reaches the script
  during them. \<open>script_element\<close> is \<^verbatim>\<open>el.getAttribute\<close> of the element that the function
  passed to \<^verbatim>\<open>evaluate\<close> receives. \<open>argv\<close> is the command line and \<open>now\<close> is what
  \<^verbatim>\<open>new Date().toISOString()\<close> returns.
\<close>

record env =
  argv :: "jsstring list"
  launch_r :: "js_error + unit"
  newContext_r :: "js_error + unit"
  newPage_r :: "js_error + unit"
  goto_r :: "unit awaited"
  waitForTimeout_r :: "unit awaited"
  query_script_r :: "handle option awaited"
  script_src_r :: "jsstring option awaited"
  script_evaluate_r :: "unit awaited"
  script_element :: "string \<Rightarrow> jsstring option"
  query_iframe_r :: "handle option awaited"
  iframe_src_r :: "jsstring option awaited"
  query_container_r :: "handle option awaited"
  innerHTML_r :: "jsstring awaited"
  now :: jsstring
  writeFileSync_r :: "js_error + unit"
  screenshot_r :: "unit awaited"
  close_r :: "unit awaited"

subsection \<open>The state of a run\<close>

record st =
  requests :: "request_rec list"
  responses :: "response_rec list"
  consoleLogs :: "console_rec list"
  pageErrors :: "pageerror_rec list"
  trace :: "action list"
  files :: "(string \<times> content) list"

definition init :: st where
  "init = \<lparr>requests = [], responses = [], consoleLogs = [], pageErrors = [],
           trace = [], files = []\<rparr>"

subsection \<open>The listeners (lines 9-51)\<close>

definition on_request :: "request_rec \<Rightarrow> st \<Rightarrow> st" where
  "on_request request s =
     s\<lparr>requests := requests s @
          [\<lparr>req_url = req_url request, req_method = req_method request,
            req_headers = req_headers request, req_postData = req_postData request\<rparr>],
       trace := trace s @ [Out (Line 17 [Str (req_method request), Str (req_url request)])]\<rparr>"

definition on_response :: "response_rec \<Rightarrow> st \<Rightarrow> st" where
  "on_response response s =
     s\<lparr>responses := responses s @
          [\<lparr>res_url = res_url response, res_status = res_status response,
            res_statusText = res_statusText response\<rparr>],
       trace := trace s @ [Out (Line 28 [Num (res_status response), Str (res_url response)])]\<rparr>"

definition on_console :: "console_rec \<Rightarrow> st \<Rightarrow> st" where
  "on_console msg s =
     (let logEntry = \<lparr>log_type = log_type msg, log_text = log_text msg,
                      log_location = log_location msg\<rparr>
      in s\<lparr>consoleLogs := consoleLogs s @ [logEntry],
           trace := trace s @ [Out (Line 40 [Upper (log_type msg), Str (log_text msg)])]\<rparr>)"

definition on_pageerror :: "pageerror_rec \<Rightarrow> st \<Rightarrow> st" where
  "on_pageerror error s =
     s\<lparr>pageErrors := pageErrors s @
          [\<lparr>err_message = err_message error, err_stack = err_stack error\<rparr>],
       trace := trace s @ [Out (Line 50 [Str (err_message error)])]\<rparr>"

text \<open>The page emits an event: it is recorded in the trace and handed to its listener.\<close>

fun dispatch :: "event \<Rightarrow> st \<Rightarrow> st" where
  "dispatch (Request r) s = on_request r (s\<lparr>trace := trace s @ [Event (Request r)]\<rparr>)"
| "dispatch (Response r) s = on_response r (s\<lparr>trace := trace s @ [Event (Response r)]\<rparr>)"
| "dispatch (Console m) s = on_console m (s\<lparr>trace := trace s @ [Event (Console m)]\<rparr>)"
| "dispatch (PageError e) s = on_pageerror e (s\<lparr>trace := trace s @ [Event (PageError e)]\<rparr>)"

fun deliver :: "event list \<Rightarrow> st \<Rightarrow> st" where
  "deliver [] s = s"
| "deliver (e # es) s = deliver es (dispatch e s)"

subsection \<open>Sequencing with exceptions\<close>

text \<open>
  A piece of the script takes the state and either returns a value or throws, leaving the
  state as it was at that point. \<open>then_do\<close> is sequential composition: a throw skips what
  follows.
\<close>

type_synonym 'a prog = "st \<Rightarrow> (js_error + 'a) \<times> st"

definition ret :: "'a \<Rightarrow> 'a prog" where
  "ret x s = (Inr x, s)"

definition then_do :: "'a prog \<Rightarrow> ('a \<Rightarrow> 'b prog) \<Rightarrow> 'b prog" where
  "then_do m f s = (case m s of (Inl e, s') \<Rightarrow> (Inl e, s') | (Inr x, s') \<Rightarrow> f x s')"

definition console_log :: "line list \<Rightarrow> unit prog" where
  "console_log ls s = (Inr (), s\<lparr>trace := trace s @ map Out ls\<rparr>)"

definition read_var :: "(st \<Rightarrow> 'a) \<Rightarrow> 'a prog" where
  "read_var f s = (Inr (f s), s)"

definition call :: "op \<Rightarrow> js_error + 'a \<Rightarrow> 'a prog" where
  "call c r s = (r, s\<lparr>trace := trace s @ [Call c]\<rparr>)"

definition await :: "op \<Rightarrow> 'a awaited \<Rightarrow> 'a prog" where
  "await c r s = (snd r, deliver (fst r) (s\<lparr>trace := trace s @ [Call c]\<rparr>))"

text \<open>A call that returned has left a file on disk.\<close>

definition created :: "string \<Rightarrow> content \<Rightarrow> unit prog" where
  "created path c s = (Inr (), s\<lparr>files := files s @ [(path, c)]\<rparr>)"

subsection \<open>Constants of the script\<close>

definition target_url :: string where
  "target_url = ''http://localhost:1313/posts/7/''"

definition report_path :: string where
  "report_path = ''/Users/nio/ddnio.github.io/giscus-diagnostic-report.json''"

definition screenshot_path :: string where
  "screenshot_path = ''/Users/nio/ddnio.github.io/giscus-screenshot.png''"

definition script_selector :: string where
  "script_selector = ''script[src*='' @ [CHR 0x22] @ ''giscus'' @ [CHR 0x22] @ '']''"

definition iframe_selector :: string where
  "iframe_selector = ''iframe.giscus-frame''"

definition container_selector :: string where
  "container_selector = ''.giscus''"

text \<open>The keys of the object built inside \<^verbatim>\<open>evaluate\<close> (lines 70-83), in insertion order.\<close>

definition attribute_keys :: "string list" where
  "attribute_keys =
     [''data-repo'', ''data-repo-id'', ''data-category'', ''data-category-id'',
      ''data-mapping'', ''data-strict'', ''data-reactions-enabled'', ''data-emit-metadata'',
      ''data-input-position'', ''data-theme'', ''data-lang'', ''crossorigin'']"

subsection \<open>Set-up (lines 4-6)\<close>

definition set_up :: "env \<Rightarrow> unit prog" where
  "set_up env =
     then_do (call (Launch False) (launch_r env)) (\<lambda>_.
     then_do (call NewContext (newContext_r env)) (\<lambda>_.
     call NewPage (newPage_r env)))"

subsection \<open>The try block (lines 54-201)\<close>

text \<open>Lines 54-61: navigation and the fixed wait.\<close>

definition navigate :: "env \<Rightarrow> unit prog" where
  "navigate env =
     then_do (console_log [Line 54 []]) (\<lambda>_.
     then_do (await (Goto target_url ''networkidle'' 30000) (goto_r env)) (\<lambda>_.
     await (WaitForTimeout 5000) (waitForTimeout_r env)))"

text \<open>Lines 63-92: the script tag.\<close>

definition check_script :: "env \<Rightarrow> handle option prog" where
  "check_script env =
     then_do (console_log [Line 63 []]) (\<lambda>_.
     then_do (await (Query script_selector) (query_script_r env)) (\<lambda>giscusScript.
     then_do
       (case giscusScript of
          Some _ \<Rightarrow>
            then_do (await (GetAttribute GiscusScript ''src'') (script_src_r env)) (\<lambda>scriptSrc.
            then_do (console_log [Line 67 [Opt scriptSrc]]) (\<lambda>_.
            then_do (await (Evaluate GiscusScript) (script_evaluate_r env)) (\<lambda>_.
            let attributes = map (\<lambda>k. (k, script_element env k)) attribute_keys
            in console_log (Line 86 [] # map (\<lambda>(key, value). Line 88 [Key key, Opt value]) attributes))))
        | None \<Rightarrow> console_log [Line 91 []]) (\<lambda>_.
     ret giscusScript)))"

text \<open>Lines 94-108: the iframe.\<close>

definition check_iframe :: "env \<Rightarrow> handle option prog" where
  "check_iframe env =
     then_do (console_log [Line 94 []]) (\<lambda>_.
     then_do (await (Query iframe_selector) (query_iframe_r env)) (\<lambda>giscusIframe.
     then_do
       (case giscusIframe of
          Some _ \<Rightarrow>
            then_do (await (GetAttribute GiscusIframe ''src'') (iframe_src_r env)) (\<lambda>iframeSrc.
            console_log
              ([Line 98 [], Line 99 [Opt iframeSrc],
                Line 100 [Num (if truthy iframeSrc then int (length (the iframeSrc)) else 0)]] @
               (if truthy iframeSrc \<and> length (the iframeSrc) > 2000
                then [Line 103 [Num (int (length (the iframeSrc)))], Line 104 []]
                else [])))
        | None \<Rightarrow> console_log [Line 107 []]) (\<lambda>_.
     ret giscusIframe)))"

text \<open>Lines 110-124: the requests whose address mentions giscus.\<close>

definition request_lines :: "nat \<times> request_rec \<Rightarrow> line list" where
  "request_lines = (\<lambda>(idx, req).
     [Line 114 [Num (int (idx + 1))], Line 115 [Str (req_method req)],
      Line 116 [Str (req_url req)], Line 117 [Num (int (length (req_url req)))]] @
     (if length (req_url req) > 2000 then [Line 119 []] else []))"

definition print_requests :: "request_rec list prog" where
  "print_requests =
     then_do (console_log [Line 110 []]) (\<lambda>_.
     then_do (read_var requests) (\<lambda>rs.
     let giscusRequests = filter (\<lambda>r. js_includes (req_url r) (lit ''giscus'')) rs in
     then_do
       (if length giscusRequests > 0
        then console_log (concat (map request_lines (enumerate 0 giscusRequests)))
        else console_log [Line 123 []]) (\<lambda>_.
     ret giscusRequests)))"

text \<open>Lines 126-139: the responses whose address mentions giscus.\<close>

definition response_lines :: "nat \<times> response_rec \<Rightarrow> line list" where
  "response_lines = (\<lambda>(idx, res).
     [Line 130 [Num (int (idx + 1))], Line 131 [Num (res_status res), Str (res_statusText res)],
      Line 132 [Str (res_url res)]] @
     (if res_status res \<ge> 400 then [Line 134 []] else []))"

definition print_responses :: "response_rec list prog" where
  "print_responses =
     then_do (console_log [Line 126 []]) (\<lambda>_.
     then_do (read_var responses) (\<lambda>rs.
     let giscusResponses = filter (\<lambda>r. js_includes (res_url r) (lit ''giscus'')) rs in
     then_do
       (if length giscusResponses > 0
        then console_log (concat (map response_lines (enumerate 0 giscusResponses)))
        else console_log [Line 138 []]) (\<lambda>_.
     ret giscusResponses)))"

text \<open>Lines 141-151: the container.\<close>

definition check_container :: "env \<Rightarrow> unit prog" where
  "check_container env =
     then_do (console_log [Line 141 []]) (\<lambda>_.
     then_do (await (Query container_selector) (query_container_r env)) (\<lambda>giscusContainer.
     case giscusContainer of
       Some _ \<Rightarrow>
         then_do (await (InnerHTML GiscusContainer) (innerHTML_r env)) (\<lambda>giscusHTML.
         console_log
           (Line 145 [Str (take 1000 giscusHTML)] #
            (if length giscusHTML > 1000 then [Line 147 [Num (int (length giscusHTML))]] else [])))
     | None \<Rightarrow> console_log [Line 150 []]))"

text \<open>Lines 153-162: console messages of type error.\<close>

definition console_error_lines :: "nat \<times> console_rec \<Rightarrow> line list" where
  "console_error_lines = (\<lambda>(idx, err).
     [Line 157 [Num (int (idx + 1))], Line 158 [Str (log_text err)]])"

definition print_console_errors :: "unit prog" where
  "print_console_errors =
     then_do (console_log [Line 153 []]) (\<lambda>_.
     then_do (read_var consoleLogs) (\<lambda>logs.
     let errors = filter (\<lambda>log. log_type log = lit ''error'') logs in
     if length errors > 0
     then console_log (concat (map console_error_lines (enumerate 0 errors)))
     else console_log [Line 161 []]))"

text \<open>Lines 164-175: page errors.\<close>

definition page_error_lines :: "nat \<times> pageerror_rec \<Rightarrow> line list" where
  "page_error_lines = (\<lambda>(idx, err).
     [Line 167 [Num (int (idx + 1))], Line 168 [Str (err_message err)]] @
     (if truthy (err_stack err) then [Line 170 [Opt (err_stack err)]] else []))"

definition print_page_errors :: "unit prog" where
  "print_page_errors =
     then_do (console_log [Line 164 []]) (\<lambda>_.
     then_do (read_var pageErrors) (\<lambda>errs.
     if length errs > 0
     then console_log (concat (map page_error_lines (enumerate 0 errs)))
     else console_log [Line 174 []]))"

text \<open>
  Lines 178-187: the report object. \<^verbatim>\<open>requests\<close> and \<^verbatim>\<open>responses\<close> are the filtered copies
  made at lines 111 and 127; \<^verbatim>\<open>consoleLogs\<close> and \<^verbatim>\<open>pageErrors\<close> are the arrays themselves.
\<close>

definition build_report ::
  "env \<Rightarrow> handle option \<Rightarrow> handle option \<Rightarrow> request_rec list \<Rightarrow> response_rec list \<Rightarrow>
   console_rec list \<Rightarrow> pageerror_rec list \<Rightarrow> report"
where
  "build_report env giscusScript giscusIframe giscusRequests giscusResponses logs errs =
     \<lparr>rep_timestamp = now env,
      rep_url = target_url,
      rep_giscusScript = (if giscusScript \<noteq> None then ''found'' else ''not found''),
      rep_giscusIframe = (if giscusIframe \<noteq> None then ''found'' else ''not found''),
      rep_requests = giscusRequests,
      rep_responses = giscusResponses,
      rep_consoleLogs = logs,
      rep_pageErrors = errs\<rparr>"

text \<open>Lines 178-194: the report is built from the current arrays and written.\<close>

definition save_report ::
  "env \<Rightarrow> handle option \<Rightarrow> handle option \<Rightarrow> request_rec list \<Rightarrow> response_rec list \<Rightarrow> unit prog"
where
  "save_report env giscusScript giscusIframe giscusRequests giscusResponses =
     then_do (read_var consoleLogs) (\<lambda>logs.
     then_do (read_var pageErrors) (\<lambda>errs.
     let report = build_report env giscusScript giscusIframe giscusRequests giscusResponses
                    logs errs in
     then_do (call (WriteFileSync report_path) (writeFileSync_r env)) (\<lambda>_.
     then_do (created report_path (Json report)) (\<lambda>_.
     console_log [Line 194 []]))))"

text \<open>Lines 197-201: the screenshot.\<close>

definition take_screenshot :: "env \<Rightarrow> unit prog" where
  "take_screenshot env =
     then_do (await (Screenshot screenshot_path True) (screenshot_r env)) (\<lambda>_.
     then_do (created screenshot_path Png) (\<lambda>_.
     console_log [Line 201 []]))"

text \<open>Everything the try block does before it builds the report (lines 54-175).\<close>

definition inspect ::
  "env \<Rightarrow> (handle option \<times> handle option \<times> request_rec list \<times> response_rec list) prog"
where
  "inspect env =
     then_do (navigate env) (\<lambda>_.
     then_do (check_script env) (\<lambda>giscusScript.
     then_do (check_iframe env) (\<lambda>giscusIframe.
     then_do print_requests (\<lambda>giscusRequests.
     then_do print_responses (\<lambda>giscusResponses.
     then_do (check_container env) (\<lambda>_.
     then_do print_console_errors (\<lambda>_.
     then_do print_page_errors (\<lambda>_.
     ret (giscusScript, giscusIframe, giscusRequests, giscusResponses)))))))))"

definition try_block :: "env \<Rightarrow> unit prog" where
  "try_block env =
     then_do (inspect env) (\<lambda>(giscusScript, giscusIframe, giscusRequests, giscusResponses).
     then_do (save_report env giscusScript giscusIframe giscusRequests giscusResponses) (\<lambda>_.
     take_screenshot env))"

subsection \<open>The whole script\<close>

text \<open>
  How a run went: set-up threw, so the function left before the try statement and its promise
  is rejected; or the try block threw and the catch clause ran; or the try block ran to its
  end. \<open>promise\<close> is the error the promise of the async function is rejected with, if any.
\<close>

datatype outcome = SetupThrew js_error | TryThrew js_error | TryCompleted

record result =
  outcome :: outcome
  promise :: "js_error option"
  final :: st

text \<open>Lines 203-207: the catch clause prints the error; the finally clause closes the browser.\<close>

definition catch_finally :: "env \<Rightarrow> (js_error + unit) \<times> st \<Rightarrow> result" where
  "catch_finally env = (\<lambda>(r, s).
     let s' = (case r of Inl error \<Rightarrow> snd (console_log [Line 204 [Err error]] s) | Inr _ \<Rightarrow> s);
         (c, s'') = await Close (close_r env) s'
     in \<lparr>outcome = (case r of Inl error \<Rightarrow> TryThrew error | Inr _ \<Rightarrow> TryCompleted),
         promise = (case c of Inl e \<Rightarrow> Some e | Inr _ \<Rightarrow> None),
         final = s''\<rparr>)"

definition main :: "env \<Rightarrow> result" where
  "main env =
     (case set_up env init of
        (Inl e, s) \<Rightarrow> \<lparr>outcome = SetupThrew e, promise = Some e, final = s\<rparr>
      | (Inr _, s) \<Rightarrow> catch_finally env (try_block env s))"

subsection \<open>Reading a trace\<close>

fun calls :: "action list \<Rightarrow> op list" where
  "calls [] = []"
| "calls (Call c # t) = c # calls t"
| "calls (_ # t) = calls t"

fun events :: "action list \<Rightarrow> event list" where
  "events [] = []"
| "events (Event e # t) = e # events t"
| "events (_ # t) = events t"

fun printed :: "action list \<Rightarrow> line list" where
  "printed [] = []"
| "printed (Out l # t) = l # printed t"
| "printed (_ # t) = printed t"

subsection \<open>What a trace holds\<close>

text \<open>The line a listener prints for an event (lines 17, 28, 40 and 50).\<close>

fun handler_line :: "event \<Rightarrow> line" where
  "handler_line (Request r) = Line 17 [Str (req_method r), Str (req_url r)]"
| "handler_line (Response r) = Line 28 [Num (res_status r), Str (res_url r)]"
| "handler_line (Console m) = Line 40 [Upper (log_type m), Str (log_text m)]"
| "handler_line (PageError e) = Line 50 [Str (err_message e)]"

text \<open>What the delivery of a list of events adds to the trace.\<close>

fun emitted :: "event list \<Rightarrow> action list" where
  "emitted [] = []"
| "emitted (e # es) = Event e # Out (handler_line e) # emitted es"

text \<open>The records of each kind among a list of events, in order.\<close>

fun requests_of :: "event list \<Rightarrow> request_rec list" where
  "requests_of [] = []"
| "requests_of (Request r # es) = r # requests_of es"
| "requests_of (_ # es) = requests_of es"

fun responses_of :: "event list \<Rightarrow> response_rec list" where
  "responses_of [] = []"
| "responses_of (Response r # es) = r # responses_of es"
| "responses_of (_ # es) = responses_of es"

fun consoles_of :: "event list \<Rightarrow> console_rec list" where
  "consoles_of [] = []"
| "consoles_of (Console r # es) = r # consoles_of es"
| "consoles_of (_ # es) = consoles_of es"

fun pageerrors_of :: "event list \<Rightarrow> pageerror_rec list" where
  "pageerrors_of [] = []"
| "pageerrors_of (PageError r # es) = r # pageerrors_of es"
| "pageerrors_of (_ # es) = pageerrors_of es"

text \<open>The part of a trace that precedes the first call of \<open>c\<close>.\<close>

definition before_call :: "op \<Rightarrow> action list \<Rightarrow> action list" where
  "before_call c t = takeWhile (\<lambda>a. a \<noteq> Call c) t"

text \<open>The reports among the files on disk.\<close>

fun reports_of :: "(string \<times> content) list \<Rightarrow> report list" where
  "reports_of [] = []"
| "reports_of ((_, Json r) # fs) = r # reports_of fs"
| "reports_of (_ # fs) = reports_of fs"

text \<open>The line of the catch clause.\<close>

definition is_catch_line :: "line \<Rightarrow> bool" where
  "is_catch_line l = (case l of Line n _ \<Rightarrow> n = 204)"

text \<open>The calls that write a file.\<close>

fun writes_file :: "op \<Rightarrow> bool" where
  "writes_file (WriteFileSync _) = True"
| "writes_file (Screenshot _ _) = True"
| "writes_file _ = False"

text \<open>The address and the paths a call carries are those written in the script.\<close>

fun fixed_arguments :: "op \<Rightarrow> bool" where
  "fixed_arguments (Goto u _ _) = (u = target_url)"
| "fixed_arguments (WriteFileSync p) = (p = report_path)"
| "fixed_arguments (Screenshot p _) = (p = screenshot_path)"
| "fixed_arguments _ = True"

text \<open>The test of the filters of lines 111 and 127.\<close>

definition mentions_giscus :: "jsstring \<Rightarrow> bool" where
  "mentions_giscus url = js_includes url (lit ''giscus'')"

text \<open>Each array holds the records of the events of its kind in the trace.\<close>

definition collected :: "st \<Rightarrow> bool" where
  "collected s = (requests s = requests_of (events (trace s)) \<and>
     responses s = responses_of (events (trace s)) \<and>
     consoleLogs s = consoles_of (events (trace s)) \<and>
     pageErrors s = pageerrors_of (events (trace s)))"

subsection \<open>The sequence of calls\<close>

text \<open>
  The calls of a run that nothing interrupts, in order. Which calls the try block makes depends
  on which of the three elements were found.
\<close>

text \<open>Whether a query answered with an element handle.\<close>

definition present :: "handle option awaited \<Rightarrow> bool" where
  "present r = (case snd r of Inr (Some _) \<Rightarrow> True | _ \<Rightarrow> False)"

definition set_up_plan :: "op list" where
  "set_up_plan = [Launch False, NewContext, NewPage]"

definition navigate_plan :: "op list" where
  "navigate_plan = [Goto target_url ''networkidle'' 30000, WaitForTimeout 5000]"

definition script_plan :: "bool \<Rightarrow> op list" where
  "script_plan found = Query script_selector #
     (if found then [GetAttribute GiscusScript ''src'', Evaluate GiscusScript] else [])"

definition iframe_plan :: "bool \<Rightarrow> op list" where
  "iframe_plan found = Query iframe_selector #
     (if found then [GetAttribute GiscusIframe ''src''] else [])"

definition container_plan :: "bool \<Rightarrow> op list" where
  "container_plan found = Query container_selector #
     (if found then [InnerHTML GiscusContainer] else [])"

definition try_plan :: "bool \<Rightarrow> bool \<Rightarrow> bool \<Rightarrow> op list" where
  "try_plan s i c = navigate_plan @ script_plan s @ iframe_plan i @ container_plan c @
     [WriteFileSync report_path, Screenshot screenshot_path True]"

definition inspect_plan :: "env \<Rightarrow> op list" where
  "inspect_plan env = navigate_plan @ script_plan (present (query_script_r env)) @
      iframe_plan (present (query_iframe_r env)) @ container_plan (present (query_container_r env))"

definition run_plan :: "env \<Rightarrow> op list" where
  "run_plan env = try_plan (present (query_script_r env)) (present (query_iframe_r env))
     (present (query_container_r env))"

subsection \<open>The results of the calls\<close>

text \<open>The error a call throws, if it throws.\<close>

definition thrown :: "js_error + 'a \<Rightarrow> js_error option" where
  "thrown r = (case r of Inl e \<Rightarrow> Some e | Inr _ \<Rightarrow> None)"

text \<open>
  The calls of lines 4-6 and of the try block, in the order of the source, each with the error
  the environment makes it throw. A call of a branch is listed when the query before it
  answers with an element handle.
\<close>

definition set_up_results :: "env \<Rightarrow> (op \<times> js_error option) list" where
  "set_up_results env =
     [(Launch False, thrown (launch_r env)), (NewContext, thrown (newContext_r env)),
      (NewPage, thrown (newPage_r env))]"

definition navigate_results :: "env \<Rightarrow> (op \<times> js_error option) list" where
  "navigate_results env =
     [(Goto target_url ''networkidle'' 30000, thrown (snd (goto_r env))),
      (WaitForTimeout 5000, thrown (snd (waitForTimeout_r env)))]"

definition script_results :: "env \<Rightarrow> (op \<times> js_error option) list" where
  "script_results env =
     (Query script_selector, thrown (snd (query_script_r env))) #
     (if present (query_script_r env)
      then [(GetAttribute GiscusScript ''src'', thrown (snd (script_src_r env))),
            (Evaluate GiscusScript, thrown (snd (script_evaluate_r env)))]
      else [])"

definition iframe_results :: "env \<Rightarrow> (op \<times> js_error option) list" where
  "iframe_results env =
     (Query iframe_selector, thrown (snd (query_iframe_r env))) #
     (if present (query_iframe_r env)
      then [(GetAttribute GiscusIframe ''src'', thrown (snd (iframe_src_r env)))]
      else [])"

definition container_results :: "env \<Rightarrow> (op \<times> js_error option) list" where
  "container_results env =
     (Query container_selector, thrown (snd (query_container_r env))) #
     (if present (query_container_r env)
      then [(InnerHTML GiscusContainer, thrown (snd (innerHTML_r env)))]
      else [])"

definition inspect_results :: "env \<Rightarrow> (op \<times> js_error option) list" where
  "inspect_results env =
     navigate_results env @ script_results env @ iframe_results env @ container_results env"

definition write_results :: "env \<Rightarrow> (op \<times> js_error option) list" where
  "write_results env = [(WriteFileSync report_path, thrown (writeFileSync_r env))]"

definition try_results :: "env \<Rightarrow> (op \<times> js_error option) list" where
  "try_results env = inspect_results env @ write_results env @
     [(Screenshot screenshot_path True, thrown (snd (screenshot_r env)))]"

text \<open>The calls up to the first one that throws, that one included, and its error.\<close>

fun upto_throw :: "(op \<times> js_error option) list \<Rightarrow> op list \<times> js_error option" where
  "upto_throw [] = ([], None)"
| "upto_throw ((c, Some e) # rs) = ([c], Some e)"
| "upto_throw ((c, None) # rs) = (c # fst (upto_throw rs), snd (upto_throw rs))"

text \<open>The calls that returned before the first throw.\<close>

fun returned :: "(op \<times> js_error option) list \<Rightarrow> op list" where
  "returned [] = []"
| "returned ((c, Some e) # rs) = []"
| "returned ((c, None) # rs) = c # returned rs"

text \<open>The path a call writes to.\<close>

fun path_written :: "op \<Rightarrow> string list" where
  "path_written (WriteFileSync p) = [p]"
| "path_written (Screenshot p _) = [p]"
| "path_written _ = []"

text \<open>
  The calls, the outcome and the paths of the files of a run, read off the results of its
  calls: set-up stops at its first throw and the function is left; otherwise the try block
  stops at its first throw and \<^verbatim>\<open>close\<close> follows.
\<close>

definition expected_calls :: "env \<Rightarrow> op list" where
  "expected_calls env =
     (case snd (upto_throw (set_up_results env)) of
        Some e \<Rightarrow> fst (upto_throw (set_up_results env))
      | None \<Rightarrow> map fst (set_up_results env) @ fst (upto_throw (try_results env)) @ [Close])"

definition expected_outcome :: "env \<Rightarrow> outcome" where
  "expected_outcome env =
     (case snd (upto_throw (set_up_results env)) of
        Some e \<Rightarrow> SetupThrew e
      | None \<Rightarrow> (case snd (upto_throw (try_results env)) of
                   Some e \<Rightarrow> TryThrew e
                 | None \<Rightarrow> TryCompleted))"

definition expected_paths :: "env \<Rightarrow> string list" where
  "expected_paths env =
     (case snd (upto_throw (set_up_results env)) of
        Some e \<Rightarrow> []
      | None \<Rightarrow> concat (map path_written (returned (try_results env))))"

text \<open>Which calls are listed and which of them throw, without the errors.\<close>

definition answers :: "(op \<times> js_error option) list \<Rightarrow> (op \<times> bool) list" where
  "answers rs = map (\<lambda>x. (fst x, snd x = None)) rs"

subsection \<open>Properties of a piece of the script\<close>

text \<open>
  The calls a piece makes are an initial part of \<open>plan\<close>, and all of \<open>plan\<close> when it
  returns.
\<close>

definition follows :: "'a prog \<Rightarrow> op list \<Rightarrow> bool" where
  "follows m plan = (\<forall>s r s'. m s = (r, s') \<longrightarrow>
      (\<exists>t. trace s' = trace s @ t \<and> prefix (calls t) plan \<and> (isl r \<or> calls t = plan)))"

text \<open>
  A piece makes the calls of \<open>rs\<close> in order, stops at the first that throws, and throws
  what that call throws.
\<close>

definition obeys :: "'a prog \<Rightarrow> (op \<times> js_error option) list \<Rightarrow> bool" where
  "obeys m rs = (\<forall>s r s'. m s = (r, s') \<longrightarrow>
      (\<exists>t. trace s' = trace s @ t \<and> calls t = fst (upto_throw rs) \<and>
           thrown r = snd (upto_throw rs)))"

text \<open>
  From \<open>s\<close> to \<open>s'\<close> the trace has only grown, each array has grown by the records of the
  events delivered in between, and the line of the catch clause has not been printed.
\<close>

definition grows :: "st \<Rightarrow> st \<Rightarrow> bool" where
  "grows s s' = (\<exists>t. trace s' = trace s @ t \<and>
      requests s' = requests s @ requests_of (events t) \<and>
      responses s' = responses s @ responses_of (events t) \<and>
      consoleLogs s' = consoleLogs s @ consoles_of (events t) \<and>
      pageErrors s' = pageErrors s @ pageerrors_of (events t) \<and>
      (\<forall>v. Line 204 v \<notin> set (printed t)))"

definition safe :: "'a prog \<Rightarrow> bool" where
  "safe m = (\<forall>s r s'. m s = (r, s') \<longrightarrow> grows s s')"

text \<open>A piece that writes no file.\<close>

definition keeps_files :: "'a prog \<Rightarrow> bool" where
  "keeps_files m = (\<forall>s r s'. m s = (r, s') \<longrightarrow> files s' = files s)"

subsection \<open>Example runs\<close>

definition boom :: js_error where
  "boom = JsError (lit ''boom'')"

text \<open>A run in which nothing is found, no event arrives and no call throws.\<close>

definition quiet_env :: env where
  "quiet_env = \<lparr>argv = [], launch_r = Inr (), newContext_r = Inr (), newPage_r = Inr (),
     goto_r = ([], Inr ()), waitForTimeout_r = ([], Inr ()),
     query_script_r = ([], Inr None), script_src_r = ([], Inr None),
     script_evaluate_r = ([], Inr ()), script_element = (\<lambda>_. None),
     query_iframe_r = ([], Inr None), iframe_src_r = ([], Inr None),
     query_container_r = ([], Inr None), innerHTML_r = ([], Inr []),
     now = lit ''2025-01-01T00:00:00.000Z'', writeFileSync_r = Inr (),
     screenshot_r = ([], Inr ()), close_r = ([], Inr ())\<rparr>"



text \<open>The navigation returns, then the wait of line 61 throws.\<close>

definition wait_fails_env :: env where
  "wait_fails_env = quiet_env\<lparr>waitForTimeout_r := ([], Inl boom)\<rparr>"

definition giscus_request :: request_rec where
  "giscus_request = \<lparr>req_url = lit ''https://giscus.app/api/discussions'', req_method = lit ''GET'',
     req_headers = [], req_postData = None\<rparr>"

definition other_request :: request_rec where
  "other_request = \<lparr>req_url = lit ''http://localhost:1313/posts/7/'', req_method = lit ''GET'',
     req_headers = [], req_postData = None\<rparr>"

definition giscus_response :: "int \<Rightarrow> response_rec" where
  "giscus_response status = \<lparr>res_url = lit ''https://giscus.app/api/discussions'',
     res_status = status, res_statusText = []\<rparr>"

definition late_message :: console_rec where
  "late_message = \<lparr>log_type = lit ''error'', log_text = lit ''URI_TOO_LONG'',
     log_location = (lit ''https://giscus.app/client.js'', 1, 1)\<rparr>"

definition page_error :: pageerror_rec where
  "page_error = \<lparr>err_message = lit ''giscus is not defined'', err_stack = None\<rparr>"

text \<open>A giscus request and a console message arrive while the script awaits line 142.\<close>

definition late_env :: env where
  "late_env = quiet_env\<lparr>query_container_r :=
     ([Request giscus_request, Console late_message], Inr None)\<rparr>"

definition late_report :: report where
  "late_report = build_report late_env None None [] [] [late_message] []"

text \<open>
  The script tag is found; requests, a failed response, a console message and a page error
  arrive during the navigation, and one more giscus request while the script awaits line 142.
\<close>

definition busy_env :: env where
  "busy_env = quiet_env\<lparr>
     goto_r := ([Request giscus_request, Request other_request, Response (giscus_response 404),
                 Console late_message, PageError page_error], Inr ()),
     query_script_r := ([], Inr (Some ElementHandle)),
     script_src_r := ([], Inr (Some (lit ''https://giscus.app/client.js''))),
     query_container_r := ([Request giscus_request], Inr None)\<rparr>"

definition busy_report :: report where
  "busy_report = build_report busy_env (Some ElementHandle) None [giscus_request]
     [giscus_response 404] [late_message] [page_error]"

text \<open>One giscus response with the given status arrives during the navigation.\<close>

definition status_env :: "int \<Rightarrow> env" where
  "status_env status = quiet_env\<lparr>goto_r := ([Response (giscus_response status)], Inr ())\<rparr>"

section \<open>Auxiliary facts\<close>

lemma calls_append [simp]: "calls (xs @ ys) = calls xs @ calls ys"
  by (induction xs rule: calls.induct) auto

lemma calls_map_Out [simp]: "calls (map Out ls) = []"
  by (induction ls) auto

lemma events_append [simp]: "events (xs @ ys) = events xs @ events ys"
  by (induction xs rule: events.induct) auto

lemma events_map_Out [simp]: "events (map Out ls) = []"
  by (induction ls) auto

lemma printed_append [simp]: "printed (xs @ ys) = printed xs @ printed ys"
  by (induction xs rule: printed.induct) auto

lemma calls_emitted [simp]: "calls (emitted es) = []"
  by (induction es) auto

lemma events_emitted [simp]: "events (emitted es) = es"
  by (induction es) auto

lemma requests_of_append [simp]: "requests_of (xs @ ys) = requests_of xs @ requests_of ys"
  by (induction xs rule: requests_of.induct) auto

lemma responses_of_append [simp]: "responses_of (xs @ ys) = responses_of xs @ responses_of ys"
  by (induction xs rule: responses_of.induct) auto

lemma consoles_of_append [simp]: "consoles_of (xs @ ys) = consoles_of xs @ consoles_of ys"
  by (induction xs rule: consoles_of.induct) auto

lemma pageerrors_of_append [simp]: "pageerrors_of (xs @ ys) = pageerrors_of xs @ pageerrors_of ys"
  by (induction xs rule: pageerrors_of.induct) auto

lemma dispatch_eq:
  "dispatch e s = s\<lparr>requests := requests s @ requests_of [e],
                     responses := responses s @ responses_of [e],
                     consoleLogs := consoleLogs s @ consoles_of [e],
                     pageErrors := pageErrors s @ pageerrors_of [e],
                     trace := trace s @ emitted [e]\<rparr>"
  by (cases e) (simp_all add: on_request_def on_response_def on_console_def on_pageerror_def Let_def)

lemma deliver_eq:
  "deliver es s = s\<lparr>requests := requests s @ requests_of es,
                     responses := responses s @ responses_of es,
                     consoleLogs := consoleLogs s @ consoles_of es,
                     pageErrors := pageErrors s @ pageerrors_of es,
                     trace := trace s @ emitted es\<rparr>"
proof (induction es arbitrary: s)
  case Nil show ?case by simp
next
  case (Cons e es)
  have "deliver (e # es) s = deliver es (dispatch e s)" by simp
  also have "\<dots> = (dispatch e s)\<lparr>requests := requests (dispatch e s) @ requests_of es,
                     responses := responses (dispatch e s) @ responses_of es,
                     consoleLogs := consoleLogs (dispatch e s) @ consoles_of es,
                     pageErrors := pageErrors (dispatch e s) @ pageerrors_of es,
                     trace := trace (dispatch e s) @ emitted es\<rparr>" by (rule Cons.IH)
  also have "\<dots> = s\<lparr>requests := requests s @ requests_of (e # es),
                     responses := responses s @ responses_of (e # es),
                     consoleLogs := consoleLogs s @ consoles_of (e # es),
                     pageErrors := pageErrors s @ pageerrors_of (e # es),
                     trace := trace s @ emitted (e # es)\<rparr>"
    by (cases e) (simp_all add: dispatch_eq)
  finally show ?case .
qed

lemma followsI:
  assumes "\<And>s r s'. m s = (r, s') \<Longrightarrow>
      \<exists>t. trace s' = trace s @ t \<and> prefix (calls t) plan \<and> (isl r \<or> calls t = plan)"
  shows "follows m plan"
  using assms by (simp add: follows_def)

lemma followsD:
  assumes "follows m plan" "m s = (r, s')"
  obtains t where "trace s' = trace s @ t" "prefix (calls t) plan" "isl r \<or> calls t = plan"
  using assms unfolding follows_def by blast

lemma follows_ret: "follows (ret x) []"
  by (simp add: follows_def ret_def)

lemma follows_console_log: "follows (console_log ls) []"
  by (simp add: follows_def console_log_def)

lemma follows_read_var: "follows (read_var f) []"
  by (simp add: follows_def read_var_def)

lemma follows_created: "follows (created p c) []"
  by (simp add: follows_def created_def)

lemma follows_call: "follows (call c r) [c]"
  by (auto simp add: follows_def call_def)

lemma follows_await: "follows (await c r) [c]"
  by (auto simp add: follows_def await_def deliver_eq)

lemma follows_then_do:
  assumes m: "follows m p1" and f: "\<And>x s s'. m s = (Inr x, s') \<Longrightarrow> follows (f x) p2"
  shows "follows (then_do m f) (p1 @ p2)"
proof (rule followsI)
  fix s r s'
  assume run: "then_do m f s = (r, s')"
  obtain r1 s1 where ms: "m s = (r1, s1)" by (cases "m s")
  from followsD [OF m ms] obtain t1
    where t1: "trace s1 = trace s @ t1" "prefix (calls t1) p1" "isl r1 \<or> calls t1 = p1" .
  show "\<exists>t. trace s' = trace s @ t \<and> prefix (calls t) (p1 @ p2) \<and> (isl r \<or> calls t = p1 @ p2)"
  proof (cases r1)
    case (Inl e)
    with ms run have "r = Inl e" "s' = s1" by (simp_all add: then_do_def)
    with t1 show ?thesis by auto
  next
    case (Inr x)
    with ms run have fx: "f x s1 = (r, s')" by (simp add: then_do_def)
    from Inr ms have "follows (f x) p2" using f by blast
    from followsD [OF this fx] obtain t2
      where t2: "trace s' = trace s1 @ t2" "prefix (calls t2) p2" "isl r \<or> calls t2 = p2" .
    from Inr t1 have c1: "calls t1 = p1" by simp
    have "trace s' = trace s @ (t1 @ t2)" using t1 t2 by simp
    moreover have "prefix (calls (t1 @ t2)) (p1 @ p2)" using c1 t2 by simp
    moreover have "isl r \<or> calls (t1 @ t2) = p1 @ p2" using c1 t2 by auto
    ultimately show ?thesis by blast
  qed
qed

lemma follows_log_then:
  "(\<And>x. follows (f x) p) \<Longrightarrow> follows (then_do (console_log ls) f) p"
  using follows_then_do [OF follows_console_log, where f = f and ?p2.0 = p] by simp

lemma follows_read_then:
  "(\<And>x. follows (f x) p) \<Longrightarrow> follows (then_do (read_var g) f) p"
  using follows_then_do [OF follows_read_var, where f = f and ?p2.0 = p] by simp

lemma follows_created_then:
  "(\<And>x. follows (f x) p) \<Longrightarrow> follows (then_do (created path c) f) p"
  using follows_then_do [OF follows_created, where f = f and ?p2.0 = p] by simp

lemma follows_call_then:
  assumes "\<And>x. r = Inr x \<Longrightarrow> follows (f x) p"
  shows "follows (then_do (call c r) f) (c # p)"
proof -
  have "follows (then_do (call c r) f) ([c] @ p)"
    by (rule follows_then_do [OF follows_call]) (simp add: call_def assms)
  then show ?thesis by simp
qed

lemma follows_await_then:
  assumes "\<And>x. snd r = Inr x \<Longrightarrow> follows (f x) p"
  shows "follows (then_do (await c r) f) (c # p)"
proof -
  have "follows (then_do (await c r) f) ([c] @ p)"
    by (rule follows_then_do [OF follows_await]) (simp add: await_def assms)
  then show ?thesis by simp
qed

lemma then_do_assoc: "then_do (then_do m f) g = then_do m (\<lambda>x. then_do (f x) g)"
  by (rule ext) (simp add: then_do_def split: prod.splits sum.splits)

lemmas follows_intros = follows_log_then follows_read_then follows_created_then
  follows_call_then follows_await_then follows_ret follows_console_log follows_call follows_await

lemma follows_set_up: "follows (set_up env) [Launch False, NewContext, NewPage]"
  unfolding set_up_def by (intro follows_intros)

lemma follows_navigate: "follows (navigate env) navigate_plan"
  unfolding navigate_def navigate_plan_def by (intro follows_intros)

lemma follows_check_script: "follows (check_script env) (script_plan (present (query_script_r env)))"
proof (cases "present (query_script_r env)")
  case True
  have "\<And>x. snd (query_script_r env) = Inr x \<Longrightarrow> x \<noteq> None"
    using True by (auto simp: present_def split: sum.splits option.splits)
  then show ?thesis unfolding check_script_def script_plan_def using True
    by (auto simp: Let_def then_do_assoc intro!: follows_intros)
next
  case False
  have "\<And>x. snd (query_script_r env) = Inr x \<Longrightarrow> x = None"
    using False by (auto simp: present_def split: sum.splits option.splits)
  then show ?thesis unfolding check_script_def script_plan_def using False
    by (auto simp: Let_def then_do_assoc intro!: follows_intros)
qed

lemma follows_check_iframe: "follows (check_iframe env) (iframe_plan (present (query_iframe_r env)))"
proof (cases "present (query_iframe_r env)")
  case True
  have "\<And>x. snd (query_iframe_r env) = Inr x \<Longrightarrow> x \<noteq> None"
    using True by (auto simp: present_def split: sum.splits option.splits)
  then show ?thesis unfolding check_iframe_def iframe_plan_def using True
    by (auto simp: Let_def then_do_assoc simp del: append.simps split del: if_split intro!: follows_intros)
next
  case False
  have "\<And>x. snd (query_iframe_r env) = Inr x \<Longrightarrow> x = None"
    using False by (auto simp: present_def split: sum.splits option.splits)
  then show ?thesis unfolding check_iframe_def iframe_plan_def using False
    by (auto simp: Let_def then_do_assoc simp del: append.simps split del: if_split intro!: follows_intros)
qed

lemma follows_check_container: "follows (check_container env) (container_plan (present (query_container_r env)))"
proof (cases "present (query_container_r env)")
  case True
  have "\<And>x. snd (query_container_r env) = Inr x \<Longrightarrow> x \<noteq> None"
    using True by (auto simp: present_def split: sum.splits option.splits)
  then show ?thesis unfolding check_container_def container_plan_def using True
    by (auto simp: Let_def then_do_assoc simp del: append.simps split del: if_split intro!: follows_intros)
next
  case False
  have "\<And>x. snd (query_container_r env) = Inr x \<Longrightarrow> x = None"
    using False by (auto simp: present_def split: sum.splits option.splits)
  then show ?thesis unfolding check_container_def container_plan_def using False
    by (auto simp: Let_def then_do_assoc simp del: append.simps split del: if_split intro!: follows_intros)
qed

lemma follows_if: "follows a p \<Longrightarrow> follows b p \<Longrightarrow> follows (if c then a else b) p"
  by simp

lemma follows_if_then:
  "follows (then_do a f) p \<Longrightarrow> follows (then_do b f) p \<Longrightarrow> follows (then_do (if c then a else b) f) p"
  by simp

lemma follows_print_requests: "follows print_requests []"
  unfolding print_requests_def Let_def then_do_assoc
  by (intro follows_intros follows_if follows_if_then)

lemma follows_print_responses: "follows print_responses []"
  unfolding print_responses_def Let_def then_do_assoc
  by (intro follows_intros follows_if follows_if_then)

lemma follows_print_console_errors: "follows print_console_errors []"
  unfolding print_console_errors_def Let_def
  by (intro follows_intros follows_if follows_if_then)

lemma follows_print_page_errors: "follows print_page_errors []"
  unfolding print_page_errors_def Let_def
  by (intro follows_intros follows_if follows_if_then)

lemma follows_save_report: "follows (save_report env gs gi greq gres) [WriteFileSync report_path]"
  unfolding save_report_def Let_def
  by (intro follows_intros)

lemma follows_take_screenshot: "follows (take_screenshot env) [Screenshot screenshot_path True]"
  unfolding take_screenshot_def
  by (intro follows_intros)

lemma follows_inspect:
  "follows (inspect env)
     (navigate_plan @ script_plan (present (query_script_r env)) @
      iframe_plan (present (query_iframe_r env)) @ container_plan (present (query_container_r env)))"
proof -
  have "follows (inspect env)
     (navigate_plan @ script_plan (present (query_script_r env)) @
      iframe_plan (present (query_iframe_r env)) @ [] @ [] @
      container_plan (present (query_container_r env)) @ [] @ [] @ [])"
    unfolding inspect_def
    by (intro follows_then_do follows_navigate follows_check_script follows_check_iframe
          follows_print_requests follows_print_responses follows_check_container
          follows_print_console_errors follows_print_page_errors follows_ret)
  then show ?thesis by simp
qed

lemma follows_save_and_shoot:
  "follows (then_do (save_report env gs gi greq gres) (\<lambda>_. take_screenshot env))
     [WriteFileSync report_path, Screenshot screenshot_path True]"
proof -
  have "follows (then_do (save_report env gs gi greq gres) (\<lambda>_. take_screenshot env))
     ([WriteFileSync report_path] @ [Screenshot screenshot_path True])"
    by (intro follows_then_do follows_save_report follows_take_screenshot)
  then show ?thesis by simp
qed

lemma follows_try_block:
  "follows (try_block env)
     (try_plan (present (query_script_r env)) (present (query_iframe_r env))
        (present (query_container_r env)))"
proof -
  have "follows (try_block env)
     ((navigate_plan @ script_plan (present (query_script_r env)) @
      iframe_plan (present (query_iframe_r env)) @ container_plan (present (query_container_r env)))
      @ [WriteFileSync report_path, Screenshot screenshot_path True])"
    unfolding try_block_def
    by (intro follows_then_do follows_inspect) (auto intro: follows_save_and_shoot)
  then show ?thesis by (simp add: try_plan_def)
qed

lemma printed_map_Out [simp]: "printed (map Out ls) = ls"
  by (induction ls) auto

lemma printed_emitted [simp]: "printed (emitted es) = map handler_line es"
  by (induction es) auto

lemma handler_line_not_204 [simp]: "handler_line e \<noteq> Line 204 v" "Line 204 v \<noteq> handler_line e"
  by (cases e; simp)+

lemma grows_refl [simp]: "grows s s"
  by (simp add: grows_def)

lemma grows_trans: "grows s s1 \<Longrightarrow> grows s1 s2 \<Longrightarrow> grows s s2"
  unfolding grows_def
  by (elim exE conjE, rule_tac x = "t @ ta" in exI) simp

lemma safe_ret: "safe (ret x)"
  by (simp add: safe_def ret_def)

lemma safe_read_var: "safe (read_var f)"
  by (simp add: safe_def read_var_def)

lemma safe_created: "safe (created p c)"
  by (auto simp add: safe_def created_def grows_def)

lemma safe_call: "safe (call c r)"
  by (auto simp add: safe_def call_def grows_def)

lemma safe_await: "safe (await c r)"
  by (auto simp add: safe_def await_def grows_def deliver_eq)

lemma safe_console_log: "(\<And>v. Line 204 v \<notin> set ls) \<Longrightarrow> safe (console_log ls)"
  by (auto simp add: safe_def console_log_def grows_def)

lemma safe_then_do:
  assumes "safe m" "\<And>x. safe (f x)"
  shows "safe (then_do m f)"
  unfolding safe_def
proof (intro allI impI)
  fix s r s' assume run: "then_do m f s = (r, s')"
  obtain r1 s1 where ms: "m s = (r1, s1)" by (cases "m s")
  with assms(1) have g1: "grows s s1" by (simp add: safe_def)
  show "grows s s'"
  proof (cases r1)
    case (Inl e) with ms run g1 show ?thesis by (simp add: then_do_def)
  next
    case (Inr x)
    with ms run have "f x s1 = (r, s')" by (simp add: then_do_def)
    with assms(2) have "grows s1 s'" unfolding safe_def by blast
    with g1 show ?thesis by (rule grows_trans)
  qed
qed

lemma safe_if: "safe a \<Longrightarrow> safe b \<Longrightarrow> safe (if c then a else b)"
  by simp

lemma safe_case_option: "safe a \<Longrightarrow> (\<And>x. safe (b x)) \<Longrightarrow> safe (case v of None \<Rightarrow> a | Some x \<Rightarrow> b x)"
  by (cases v) simp_all

lemmas safe_intros = safe_then_do safe_ret safe_read_var safe_created safe_call safe_await
  safe_if safe_case_option

lemma safe_set_up: "safe (set_up env)"
  unfolding set_up_def by (intro safe_intros)

lemma safe_navigate: "safe (navigate env)"
  unfolding navigate_def by (intro safe_intros safe_console_log) simp

lemma safe_check_script: "safe (check_script env)"
  unfolding check_script_def Let_def by (intro safe_intros safe_console_log) auto

lemma safe_check_iframe: "safe (check_iframe env)"
  unfolding check_iframe_def by (intro safe_intros safe_console_log) auto

lemma safe_print_requests: "safe print_requests"
  unfolding print_requests_def Let_def
  by (intro safe_intros safe_console_log) (auto simp: request_lines_def)

lemma safe_print_responses: "safe print_responses"
  unfolding print_responses_def Let_def
  by (intro safe_intros safe_console_log) (auto simp: response_lines_def)

lemma safe_check_container: "safe (check_container env)"
  unfolding check_container_def by (intro safe_intros safe_console_log) auto

lemma safe_print_console_errors: "safe print_console_errors"
  unfolding print_console_errors_def Let_def
  by (intro safe_intros safe_console_log) (auto simp: console_error_lines_def)

lemma safe_print_page_errors: "safe print_page_errors"
  unfolding print_page_errors_def Let_def
  by (intro safe_intros safe_console_log) (auto simp: page_error_lines_def)

lemma safe_save_report: "safe (save_report env gs gi greq gres)"
  unfolding save_report_def Let_def by (intro safe_intros safe_console_log) auto

lemma safe_take_screenshot: "safe (take_screenshot env)"
  unfolding take_screenshot_def by (intro safe_intros safe_console_log) auto

lemma safe_inspect: "safe (inspect env)"
  unfolding inspect_def
  by (intro safe_then_do safe_ret safe_navigate safe_check_script safe_check_iframe
        safe_print_requests safe_print_responses safe_check_container
        safe_print_console_errors safe_print_page_errors)

lemma safe_try_block: "safe (try_block env)"
  unfolding try_block_def
  by (intro safe_then_do safe_inspect) (auto intro!: safe_then_do safe_save_report safe_take_screenshot)

lemma keeps_ret: "keeps_files (ret x)"
  by (simp add: keeps_files_def ret_def)

lemma keeps_read_var: "keeps_files (read_var f)"
  by (simp add: keeps_files_def read_var_def)

lemma keeps_call: "keeps_files (call c r)"
  by (auto simp add: keeps_files_def call_def)

lemma keeps_await: "keeps_files (await c r)"
  by (auto simp add: keeps_files_def await_def deliver_eq)

lemma keeps_console_log: "keeps_files (console_log ls)"
  by (auto simp add: keeps_files_def console_log_def)

lemma keeps_then_do:
  assumes "keeps_files m" "\<And>x. keeps_files (f x)"
  shows "keeps_files (then_do m f)"
  unfolding keeps_files_def
proof (intro allI impI)
  fix s r s' assume run: "then_do m f s = (r, s')"
  obtain r1 s1 where ms: "m s = (r1, s1)" by (cases "m s")
  with assms(1) have g1: "files s1 = files s" unfolding keeps_files_def by blast
  show "files s' = files s"
  proof (cases r1)
    case (Inl e) with ms run g1 show ?thesis by (simp add: then_do_def)
  next
    case (Inr x)
    with ms run have "f x s1 = (r, s')" by (simp add: then_do_def)
    with assms(2) have "files s' = files s1" unfolding keeps_files_def by blast
    with g1 show ?thesis by simp
  qed
qed

lemma keeps_if: "keeps_files a \<Longrightarrow> keeps_files b \<Longrightarrow> keeps_files (if c then a else b)"
  by simp

lemma keeps_case_option:
  "keeps_files a \<Longrightarrow> (\<And>x. keeps_files (b x)) \<Longrightarrow> keeps_files (case v of None \<Rightarrow> a | Some x \<Rightarrow> b x)"
  by (cases v) simp_all

lemmas keeps_intros = keeps_then_do keeps_ret keeps_read_var keeps_call keeps_await
  keeps_console_log keeps_if keeps_case_option

lemma keeps_set_up: "keeps_files (set_up env)"
  unfolding set_up_def by (intro keeps_intros)

lemma keeps_inspect: "keeps_files (inspect env)"
  unfolding inspect_def navigate_def check_script_def check_iframe_def print_requests_def
    print_responses_def check_container_def print_console_errors_def print_page_errors_def Let_def
  by (intro keeps_intros)

lemma then_do_cases:
  assumes "then_do m f s = (r, s')"
  obtains (threw) e where "m s = (Inl e, s')" "r = Inl e"
        | (went_on) x s1 where "m s = (Inr x, s1)" "f x s1 = (r, s')"
proof -
  obtain r1 s1 where ms: "m s = (r1, s1)" by (cases "m s")
  show thesis
  proof (cases r1)
    case (Inl e) with ms assms threw show ?thesis by (simp add: then_do_def)
  next
    case (Inr x) with ms assms went_on show ?thesis by (simp add: then_do_def)
  qed
qed

lemma then_do_Inr:
  assumes "then_do m f s = (Inr y, s')"
  obtains x s1 where "m s = (Inr x, s1)" "f x s1 = (Inr y, s')"
  using assms by (elim then_do_cases) auto

lemma save_report_eq:
  "save_report env gs gi greq gres s =
     (case writeFileSync_r env of
        Inl e \<Rightarrow> (Inl e, s\<lparr>trace := trace s @ [Call (WriteFileSync report_path)]\<rparr>)
      | Inr _ \<Rightarrow> (Inr (),
          s\<lparr>trace := trace s @ [Call (WriteFileSync report_path), Out (Line 194 [])],
            files := files s @
              [(report_path, Json (build_report env gs gi greq gres (consoleLogs s) (pageErrors s)))]\<rparr>))"
  by (simp add: save_report_def then_do_def read_var_def call_def created_def console_log_def
        Let_def split: sum.splits)

lemma take_screenshot_eq:
  "take_screenshot env s =
     (case snd (screenshot_r env) of
        Inl e \<Rightarrow> (Inl e, deliver (fst (screenshot_r env))
                    (s\<lparr>trace := trace s @ [Call (Screenshot screenshot_path True)]\<rparr>))
      | Inr _ \<Rightarrow> (Inr (),
          s\<lparr>requests := requests s @ requests_of (fst (screenshot_r env)),
            responses := responses s @ responses_of (fst (screenshot_r env)),
            consoleLogs := consoleLogs s @ consoles_of (fst (screenshot_r env)),
            pageErrors := pageErrors s @ pageerrors_of (fst (screenshot_r env)),
            trace := trace s @ [Call (Screenshot screenshot_path True)] @
                     emitted (fst (screenshot_r env)) @ [Out (Line 201 [])],
            files := files s @ [(screenshot_path, Png)]\<rparr>))"
  by (simp add: take_screenshot_def then_do_def await_def created_def console_log_def
        deliver_eq split: sum.splits)

text \<open>The four ways the try block can end.\<close>

lemma try_block_cases:
  assumes "try_block env s = (r, s')"
  obtains
    (inspect_threw) e where "inspect env s = (Inl e, s')" "r = Inl e"
  | (write_threw) gs gi greq gres s1 e where
      "inspect env s = (Inr (gs, gi, greq, gres), s1)" "r = Inl e"
      "trace s' = trace s1 @ [Call (WriteFileSync report_path)]" "files s' = files s1"
  | (screenshot_threw) gs gi greq gres s1 e where
      "inspect env s = (Inr (gs, gi, greq, gres), s1)" "r = Inl e"
      "trace s' = trace s1 @ [Call (WriteFileSync report_path), Out (Line 194 []),
          Call (Screenshot screenshot_path True)] @ emitted (fst (screenshot_r env))"
      "files s' = files s1 @
          [(report_path, Json (build_report env gs gi greq gres (consoleLogs s1) (pageErrors s1)))]"
  | (completed) gs gi greq gres s1 where
      "inspect env s = (Inr (gs, gi, greq, gres), s1)" "r = Inr ()"
      "trace s' = trace s1 @ [Call (WriteFileSync report_path), Out (Line 194 []),
          Call (Screenshot screenshot_path True)] @ emitted (fst (screenshot_r env)) @
          [Out (Line 201 [])]"
      "files s' = files s1 @
          [(report_path, Json (build_report env gs gi greq gres (consoleLogs s1) (pageErrors s1))),
           (screenshot_path, Png)]"
proof -
  from assms have run: "then_do (inspect env) (\<lambda>(gs, gi, greq, gres).
     then_do (save_report env gs gi greq gres) (\<lambda>_. take_screenshot env)) s = (r, s')"
    by (simp add: try_block_def)
  show thesis
  proof (rule then_do_cases [OF run])
    fix e assume "inspect env s = (Inl e, s')" "r = Inl e"
    then show thesis by (rule inspect_threw)
  next
    fix x s1
    assume ins: "inspect env s = (Inr x, s1)"
      and rest: "(case x of (gs, gi, greq, gres) \<Rightarrow>
         then_do (save_report env gs gi greq gres) (\<lambda>_. take_screenshot env)) s1 = (r, s')"
    obtain gs gi greq gres where x: "x = (gs, gi, greq, gres)" by (cases x)
    from rest x have rest': "then_do (save_report env gs gi greq gres) (\<lambda>_. take_screenshot env) s1 = (r, s')"
      by simp
    show thesis
    proof (rule then_do_cases [OF rest'])
      fix e assume "save_report env gs gi greq gres s1 = (Inl e, s')" "r = Inl e"
      then show thesis using ins x
        by (intro write_threw [of gs gi greq gres s1 e])
           (auto simp: save_report_eq split: sum.splits)
    next
      fix u s2
      assume sv: "save_report env gs gi greq gres s1 = (Inr u, s2)"
        and shot: "take_screenshot env s2 = (r, s')"
      from sv have s2: "trace s2 = trace s1 @ [Call (WriteFileSync report_path), Out (Line 194 [])]"
        "files s2 = files s1 @
          [(report_path, Json (build_report env gs gi greq gres (consoleLogs s1) (pageErrors s1)))]"
        by (auto simp: save_report_eq split: sum.splits)
      show thesis
      proof (cases "snd (screenshot_r env)")
        case (Inl e)
        with shot have "r = Inl e"
          "s' = deliver (fst (screenshot_r env))
                    (s2\<lparr>trace := trace s2 @ [Call (Screenshot screenshot_path True)]\<rparr>)"
          by (auto simp: take_screenshot_eq)
        then show thesis using ins x s2
          by (intro screenshot_threw [of gs gi greq gres s1 e]) (simp_all add: deliver_eq)
      next
        case (Inr v)
        with shot have "r = Inr ()"
          "trace s' = trace s2 @ [Call (Screenshot screenshot_path True)] @
                     emitted (fst (screenshot_r env)) @ [Out (Line 201 [])]"
          "files s' = files s2 @ [(screenshot_path, Png)]"
          by (auto simp: take_screenshot_eq)
        then show thesis using ins x s2
          by (intro completed [of gs gi greq gres s1]) simp_all
      qed
    qed
  qed
qed

text \<open>The three ways a run can go.\<close>

lemma main_cases:
  obtains
    (setup_threw) e s where "set_up env init = (Inl e, s)"
      "main env = \<lparr>outcome = SetupThrew e, promise = Some e, final = s\<rparr>"
  | (try_threw) s e s1 where "set_up env init = (Inr (), s)" "try_block env s = (Inl e, s1)"
      "outcome (main env) = TryThrew e"
      "final (main env) = deliver (fst (close_r env))
          (s1\<lparr>trace := trace s1 @ [Out (Line 204 [Err e]), Call Close]\<rparr>)"
  | (try_completed) s s1 where "set_up env init = (Inr (), s)" "try_block env s = (Inr (), s1)"
      "outcome (main env) = TryCompleted"
      "final (main env) = deliver (fst (close_r env)) (s1\<lparr>trace := trace s1 @ [Call Close]\<rparr>)"
proof -
  obtain r0 s where su: "set_up env init = (r0, s)" by (cases "set_up env init")
  show thesis
  proof (cases r0)
    case (Inl e)
    with su show thesis by (intro setup_threw [of e s]) (simp_all add: main_def)
  next
    case (Inr u)
    obtain r s1 where tb: "try_block env s = (r, s1)" by (cases "try_block env s")
    show thesis
    proof (cases r)
      case (Inl e)
      with su Inr tb show thesis
        by (intro try_threw [of s e s1])
           (simp_all add: main_def catch_finally_def console_log_def await_def split: prod.splits)
    next
      case r: (Inr v)
      with su Inr tb show thesis
        by (intro try_completed [of s s1])
           (simp_all add: main_def catch_finally_def console_log_def await_def split: prod.splits)
    qed
  qed
qed

lemma check_script_result:
  assumes "check_script env s = (Inr g, s')"
  shows "snd (query_script_r env) = Inr g"
  using assms
  by (auto simp: check_script_def then_do_def console_log_def await_def ret_def Let_def
        split: sum.splits option.splits prod.splits)

lemma check_iframe_result:
  assumes "check_iframe env s = (Inr g, s')"
  shows "snd (query_iframe_r env) = Inr g"
  using assms
  by (auto simp: check_iframe_def then_do_def console_log_def await_def ret_def
        split: sum.splits option.splits prod.splits)

lemma print_requests_eq:
  "\<exists>ls. print_requests s =
     (Inr (filter (\<lambda>r. mentions_giscus (req_url r)) (requests s)),
      s\<lparr>trace := trace s @ map Out ls\<rparr>)"
proof (cases "length (filter (\<lambda>r. js_includes (req_url r) (lit ''giscus'')) (requests s)) > 0")
  case True
  then show ?thesis
    by (intro exI [of _ "Line 110 [] # concat (map request_lines (enumerate 0
           (filter (\<lambda>r. js_includes (req_url r) (lit ''giscus'')) (requests s))))"])
       (simp add: print_requests_def mentions_giscus_def then_do_def console_log_def
          read_var_def ret_def Let_def)
next
  case False
  then show ?thesis
    by (intro exI [of _ "[Line 110 [], Line 123 []]"])
       (simp add: print_requests_def mentions_giscus_def then_do_def console_log_def
          read_var_def ret_def Let_def)
qed

lemma print_responses_eq:
  "\<exists>ls. print_responses s =
     (Inr (filter (\<lambda>r. mentions_giscus (res_url r)) (responses s)),
      s\<lparr>trace := trace s @ map Out ls\<rparr>)"
proof (cases "length (filter (\<lambda>r. js_includes (res_url r) (lit ''giscus'')) (responses s)) > 0")
  case True
  then show ?thesis
    by (intro exI [of _ "Line 126 [] # concat (map response_lines (enumerate 0
           (filter (\<lambda>r. js_includes (res_url r) (lit ''giscus'')) (responses s))))"])
       (simp add: print_responses_def mentions_giscus_def then_do_def console_log_def
          read_var_def ret_def Let_def)
next
  case False
  then show ?thesis
    by (intro exI [of _ "[Line 126 [], Line 138 []]"])
       (simp add: print_responses_def mentions_giscus_def then_do_def console_log_def
          read_var_def ret_def Let_def)
qed

lemma check_container_trace:
  assumes "check_container env s = (r, s')"
  shows "\<exists>t. trace s' = trace s @ Out (Line 141 []) # Call (Query container_selector) # t"
  using assms
  by (auto simp: check_container_def then_do_def console_log_def await_def deliver_eq
        split: sum.splits option.splits prod.splits)

lemma grows_trace: "grows s s' \<Longrightarrow> \<exists>t. trace s' = trace s @ t"
  by (auto simp: grows_def)

lemma safeD: "safe m \<Longrightarrow> m s = (r, s') \<Longrightarrow> grows s s'"
  by (auto simp: safe_def)

lemma follows_Inr:
  assumes "follows m plan" "m s = (Inr x, s')"
  shows "calls (trace s') = calls (trace s) @ plan"
  using followsD [OF assms] by (metis calls_append sum.disc(2))

text \<open>What is known when the inspection returned.\<close>

lemma inspect_success:
  assumes "inspect env s = (Inr (gs, gi, greq, gres), s')"
  obtains s3 ls t where
    "grows s s3"
    "calls (trace s3) = calls (trace s) @ navigate_plan @
        script_plan (present (query_script_r env)) @ iframe_plan (present (query_iframe_r env))"
    "snd (query_script_r env) = Inr gs" "snd (query_iframe_r env) = Inr gi"
    "greq = filter (\<lambda>r. mentions_giscus (req_url r)) (requests s3)"
    "gres = filter (\<lambda>r. mentions_giscus (res_url r)) (responses s3)"
    "trace s' = trace s3 @ map Out ls @ Call (Query container_selector) # t"
proof -
  from assms [unfolded inspect_def]
  obtain u1 s1 where nav: "navigate env s = (Inr u1, s1)"
    and r1: "then_do (check_script env) (\<lambda>giscusScript.
     then_do (check_iframe env) (\<lambda>giscusIframe.
     then_do print_requests (\<lambda>giscusRequests.
     then_do print_responses (\<lambda>giscusResponses.
     then_do (check_container env) (\<lambda>_.
     then_do print_console_errors (\<lambda>_.
     then_do print_page_errors (\<lambda>_.
     ret (giscusScript, giscusIframe, giscusRequests, giscusResponses)))))))) s1
      = (Inr (gs, gi, greq, gres), s')"
    by (rule then_do_Inr)
  from r1 obtain a s2 where cs: "check_script env s1 = (Inr a, s2)"
    and r2: "then_do (check_iframe env) (\<lambda>giscusIframe.
     then_do print_requests (\<lambda>giscusRequests.
     then_do print_responses (\<lambda>giscusResponses.
     then_do (check_container env) (\<lambda>_.
     then_do print_console_errors (\<lambda>_.
     then_do print_page_errors (\<lambda>_.
     ret (a, giscusIframe, giscusRequests, giscusResponses))))))) s2
      = (Inr (gs, gi, greq, gres), s')"
    by (rule then_do_Inr)
  from r2 obtain b s3 where ci: "check_iframe env s2 = (Inr b, s3)"
    and r3: "then_do print_requests (\<lambda>giscusRequests.
     then_do print_responses (\<lambda>giscusResponses.
     then_do (check_container env) (\<lambda>_.
     then_do print_console_errors (\<lambda>_.
     then_do print_page_errors (\<lambda>_.
     ret (a, b, giscusRequests, giscusResponses)))))) s3
      = (Inr (gs, gi, greq, gres), s')"
    by (rule then_do_Inr)
  from r3 obtain c s4 where pr: "print_requests s3 = (Inr c, s4)"
    and r4: "then_do print_responses (\<lambda>giscusResponses.
     then_do (check_container env) (\<lambda>_.
     then_do print_console_errors (\<lambda>_.
     then_do print_page_errors (\<lambda>_.
     ret (a, b, c, giscusResponses))))) s4
      = (Inr (gs, gi, greq, gres), s')"
    by (rule then_do_Inr)
  from r4 obtain d s5 where ps: "print_responses s4 = (Inr d, s5)"
    and r5: "then_do (check_container env) (\<lambda>_.
     then_do print_console_errors (\<lambda>_.
     then_do print_page_errors (\<lambda>_.
     ret (a, b, c, d)))) s5
      = (Inr (gs, gi, greq, gres), s')"
    by (rule then_do_Inr)
  from r5 obtain u6 s6 where cc: "check_container env s5 = (Inr u6, s6)"
    and r6: "then_do print_console_errors (\<lambda>_.
     then_do print_page_errors (\<lambda>_.
     ret (a, b, c, d))) s6
      = (Inr (gs, gi, greq, gres), s')"
    by (rule then_do_Inr)
  from r6 obtain u7 s7 where pe: "print_console_errors s6 = (Inr u7, s7)"
    and r7: "then_do print_page_errors (\<lambda>_. ret (a, b, c, d)) s7 = (Inr (gs, gi, greq, gres), s')"
    by (rule then_do_Inr)
  from r7 obtain u8 s8 where pp: "print_page_errors s7 = (Inr u8, s8)"
    and r8: "ret (a, b, c, d) s8 = (Inr (gs, gi, greq, gres), s')"
    by (rule then_do_Inr)
  from r8 have eqs: "a = gs" "b = gi" "c = greq" "d = gres" "s8 = s'"
    by (simp_all add: ret_def)
  have g3: "grows s s3"
    using safeD [OF safe_navigate nav] safeD [OF safe_check_script cs]
      safeD [OF safe_check_iframe ci] by (blast intro: grows_trans)
  have c3: "calls (trace s3) = calls (trace s) @ navigate_plan @
        script_plan (present (query_script_r env)) @ iframe_plan (present (query_iframe_r env))"
    using follows_Inr [OF follows_navigate nav] follows_Inr [OF follows_check_script cs]
      follows_Inr [OF follows_check_iframe ci] by simp
  from print_requests_eq [of s3] pr obtain l4 where
    4: "c = filter (\<lambda>r. mentions_giscus (req_url r)) (requests s3)"
       "s4 = s3\<lparr>trace := trace s3 @ map Out l4\<rparr>" by auto
  from print_responses_eq [of s4] ps obtain l5 where
    5: "d = filter (\<lambda>r. mentions_giscus (res_url r)) (responses s4)"
       "s5 = s4\<lparr>trace := trace s4 @ map Out l5\<rparr>" by auto
  from check_container_trace [OF cc] obtain t6 where
    6: "trace s6 = trace s5 @ Out (Line 141 []) # Call (Query container_selector) # t6" by blast
  from grows_trace [OF safeD [OF safe_print_console_errors pe]] obtain t7 where
    7: "trace s7 = trace s6 @ t7" by blast
  from grows_trace [OF safeD [OF safe_print_page_errors pp]] obtain t8 where
    8: "trace s8 = trace s7 @ t8" by blast
  have tr: "trace s' = trace s3 @ map Out (l4 @ l5 @ [Line 141 []]) @
      Call (Query container_selector) # (t6 @ t7 @ t8)"
    using 4 5 6 7 8 eqs by simp
  show thesis
    using that [OF g3 c3 _ _ _ _ tr] check_script_result [OF cs] check_iframe_result [OF ci]
      4 5 eqs by simp
qed

text \<open>The presence of the three elements, as the environment answers the three queries.\<close>

lemma collected_init: "collected init"
  by (simp add: collected_def init_def)

lemma grows_collected: "collected s \<Longrightarrow> grows s s' \<Longrightarrow> collected s'"
  by (auto simp: collected_def grows_def)

lemma keepsD: "keeps_files m \<Longrightarrow> m s = (r, s') \<Longrightarrow> files s' = files s"
  by (auto simp: keeps_files_def)

lemma set_up_success:
  assumes "set_up env init = (Inr u, s)"
  shows "calls (trace s) = set_up_plan" "files s = []" "collected s" "printed (trace s) = []"
proof -
  show "calls (trace s) = set_up_plan"
    using follows_Inr [OF follows_set_up assms] by (simp add: init_def set_up_plan_def)
  show "files s = []" using keepsD [OF keeps_set_up assms] by (simp add: init_def)
  show "collected s" using grows_collected [OF collected_init safeD [OF safe_set_up assms]] .
  show "printed (trace s) = []"
    using assms
    by (auto simp: set_up_def then_do_def call_def init_def split: sum.splits prod.splits)
qed

lemma set_up_failure:
  assumes "set_up env init = (Inl e, s)"
  shows "prefix (calls (trace s)) set_up_plan" "files s = []" "collected s" "printed (trace s) = []"
    "calls (trace s) \<noteq> []"
proof -
  from followsD [OF follows_set_up assms] obtain t where
    "trace s = trace init @ t" "prefix (calls t) [Launch False, NewContext, NewPage]" by blast
  then show "prefix (calls (trace s)) set_up_plan" by (simp add: init_def set_up_plan_def)
  show "files s = []" using keepsD [OF keeps_set_up assms] by (simp add: init_def)
  show "collected s" using grows_collected [OF collected_init safeD [OF safe_set_up assms]] .
  show "printed (trace s) = []" "calls (trace s) \<noteq> []"
    using assms
    by (auto simp: set_up_def then_do_def call_def init_def split: sum.splits prod.splits)
qed

text \<open>The calls of a run.\<close>

lemma main_calls:
  obtains
    (setup_threw) e where "outcome (main env) = SetupThrew e"
      "prefix (calls (trace (final (main env)))) set_up_plan"
  | (try_threw) e p where "outcome (main env) = TryThrew e" "prefix p (run_plan env)"
      "calls (trace (final (main env))) = set_up_plan @ p @ [Close]"
  | (try_completed) "outcome (main env) = TryCompleted"
      "calls (trace (final (main env))) = set_up_plan @ run_plan env @ [Close]"
proof (cases env rule: main_cases)
  case (setup_threw e s)
  then show ?thesis using set_up_failure(1) [of env e s] that(1) [of e] by simp
next
  case (try_threw s e s1)
  from followsD [OF follows_try_block try_threw(2)] obtain t where
    t: "trace s1 = trace s @ t" "prefix (calls t) (run_plan env)"
    unfolding run_plan_def by blast
  have "calls (trace (final (main env))) = set_up_plan @ calls t @ [Close]"
    using try_threw(4) t(1) set_up_success(1) [OF try_threw(1)] by (simp add: deliver_eq)
  then show ?thesis using that(2) [OF try_threw(3) t(2)] by simp
next
  case (try_completed s s1)
  have "calls (trace s1) = calls (trace s) @ run_plan env"
    using follows_Inr [OF follows_try_block try_completed(2)] by (simp add: run_plan_def)
  then have "calls (trace (final (main env))) = set_up_plan @ run_plan env @ [Close]"
    using try_completed(4) set_up_success(1) [OF try_completed(1)] by (simp add: deliver_eq)
  then show ?thesis using that(3) [OF try_completed(3)] by simp
qed

lemma collected_main: "collected (final (main env))"
proof (cases env rule: main_cases)
  case (setup_threw e s)
  then show ?thesis using set_up_failure(3) [of env e s] by simp
next
  case (try_threw s e s1)
  have "collected s1"
    using grows_collected [OF set_up_success(3) [OF try_threw(1)] safeD [OF safe_try_block try_threw(2)]] .
  then show ?thesis using try_threw(4) by (simp add: collected_def deliver_eq)
next
  case (try_completed s s1)
  have "collected s1"
    using grows_collected [OF set_up_success(3) [OF try_completed(1)] safeD [OF safe_try_block try_completed(2)]] .
  then show ?thesis using try_completed(4) by (simp add: collected_def deliver_eq)
qed

text \<open>Everything the script does before it builds the report: lines 4-175.\<close>

lemmas plan_defs = set_up_plan_def run_plan_def try_plan_def navigate_plan_def script_plan_def
  iframe_plan_def container_plan_def inspect_plan_def

lemma selectors_differ [simp]:
  "script_selector \<noteq> iframe_selector" "script_selector \<noteq> container_selector"
  "iframe_selector \<noteq> container_selector" "iframe_selector \<noteq> script_selector"
  "container_selector \<noteq> script_selector" "container_selector \<noteq> iframe_selector"
  by (simp_all add: script_selector_def iframe_selector_def container_selector_def)

lemma run_plan_inspect: "run_plan env = inspect_plan env @
    [WriteFileSync report_path, Screenshot screenshot_path True]"
  by (simp add: plan_defs)

lemma distinct_full_plan: "distinct (set_up_plan @ run_plan env @ [Close])"
  by (simp add: plan_defs)

lemma Close_not_planned: "Close \<notin> set (set_up_plan @ run_plan env)"
  by (simp add: plan_defs)

lemma planned_fixed_arguments: "c \<in> set (set_up_plan @ run_plan env @ [Close]) \<Longrightarrow> fixed_arguments c"
  by (auto simp add: plan_defs split: if_splits)

lemma inspect_plan_writes_nothing: "filter writes_file (set_up_plan @ inspect_plan env) = []"
  by (simp add: plan_defs)

lemma full_plan_writes:
  "filter writes_file (set_up_plan @ run_plan env @ [Close]) =
     [WriteFileSync report_path, Screenshot screenshot_path True]"
  by (simp add: plan_defs)

lemma prefix_filter_Nil: "prefix p q \<Longrightarrow> filter P q = [] \<Longrightarrow> filter P p = []"
  by (auto simp: prefix_def)

lemma prefix_distinct: "prefix p q \<Longrightarrow> distinct q \<Longrightarrow> distinct p"
  by (auto simp: prefix_def)

text \<open>The calls of a run are an initial part of one fixed sequence, then at most \<open>Close\<close>.\<close>

lemma run_shape:
  "\<exists>p. prefix p (set_up_plan @ run_plan env) \<and>
       (calls (trace (final (main env))) = p \<or> calls (trace (final (main env))) = p @ [Close])"
proof (cases env rule: main_calls)
  case (setup_threw e)
  then have "prefix (calls (trace (final (main env)))) (set_up_plan @ run_plan env)"
    by (simp add: prefix_def) (metis append.assoc)
  then show ?thesis by blast
next
  case (try_threw e p)
  then show ?thesis by (intro exI [of _ "set_up_plan @ p"]) simp
next
  case try_completed
  then show ?thesis by (intro exI [of _ "set_up_plan @ run_plan env"]) simp
qed

lemma distinct_calls_main: "distinct (calls (trace (final (main env))))"
proof -
  from run_shape [of env] obtain p where p: "prefix p (set_up_plan @ run_plan env)"
    and c: "calls (trace (final (main env))) = p \<or> calls (trace (final (main env))) = p @ [Close]"
    by blast
  have d: "distinct (set_up_plan @ run_plan env)"
    using distinct_full_plan [of env] by simp
  have dp: "distinct p" using prefix_distinct [OF p d] .
  have "Close \<notin> set p" using Close_not_planned [of env] set_mono_prefix [OF p] by blast
  with dp c show ?thesis by auto
qed

lemma calls_main_planned:
  "set (calls (trace (final (main env)))) \<subseteq> set (set_up_plan @ run_plan env @ [Close])"
proof -
  from run_shape [of env] obtain p where p: "prefix p (set_up_plan @ run_plan env)"
    and c: "calls (trace (final (main env))) = p \<or> calls (trace (final (main env))) = p @ [Close]"
    by blast
  from set_mono_prefix [OF p] c show ?thesis by auto
qed

lemma files_deliver [simp]: "files (deliver es s) = files s"
  by (simp add: deliver_eq)

text \<open>The files of a run.\<close>

lemma main_files:
  obtains
    (none) "files (final (main env)) = []" "outcome (main env) \<noteq> TryCompleted"
  | (report_only) s gs gi greq gres s1 e where "set_up env init = (Inr (), s)"
      "inspect env s = (Inr (gs, gi, greq, gres), s1)" "outcome (main env) = TryThrew e"
      "files (final (main env)) =
         [(report_path, Json (build_report env gs gi greq gres (consoleLogs s1) (pageErrors s1)))]"
      "\<exists>post. trace (final (main env)) = trace s1 @ Call (WriteFileSync report_path) # post"
  | (both) s gs gi greq gres s1 where "set_up env init = (Inr (), s)"
      "inspect env s = (Inr (gs, gi, greq, gres), s1)" "outcome (main env) = TryCompleted"
      "files (final (main env)) =
         [(report_path, Json (build_report env gs gi greq gres (consoleLogs s1) (pageErrors s1))),
          (screenshot_path, Png)]"
      "\<exists>post. trace (final (main env)) = trace s1 @ Call (WriteFileSync report_path) # post"
proof (cases env rule: main_cases)
  case (setup_threw e s)
  then show ?thesis using set_up_failure(2) [of env e s] none by simp
next
  case (try_threw s e s1)
  note su = set_up_success [OF try_threw(1)]
  from try_threw(4) have fin: "files (final (main env)) = files s1"
    "trace (final (main env)) = trace s1 @ [Out (Line 204 [Err e]), Call Close] @ emitted (fst (close_r env))"
    by (simp_all add: deliver_eq)
  show ?thesis
  proof (cases rule: try_block_cases [OF try_threw(2)])
    case (1 e')
    then show ?thesis using none fin su(2) keepsD [OF keeps_inspect 1(1)] try_threw(3) by simp
  next
    case (2 gs gi greq gres s2 e')
    then show ?thesis using none fin su(2) keepsD [OF keeps_inspect 2(1)] try_threw(3) by simp
  next
    case (3 gs gi greq gres s2 e')
    show ?thesis
      using 3 fin su(2) keepsD [OF keeps_inspect 3(1)] try_threw(1,3)
      by (intro report_only [of s gs gi greq gres s2 e]) simp_all
  next
    case (4 gs gi greq gres s2)
    then show ?thesis by simp
  qed
next
  case (try_completed s s1)
  note su = set_up_success [OF try_completed(1)]
  from try_completed(4) have fin: "files (final (main env)) = files s1"
    "trace (final (main env)) = trace s1 @ [Call Close] @ emitted (fst (close_r env))"
    by (simp_all add: deliver_eq)
  show ?thesis
  proof (cases rule: try_block_cases [OF try_completed(2)])
    case (4 gs gi greq gres s2)
    show ?thesis
      using 4 fin su(2) keepsD [OF keeps_inspect 4(1)] try_completed(1,3)
      by (intro both [of s gs gi greq gres s2]) simp_all
  qed simp_all
qed

lemmas prog_defs = ret_def then_do_def console_log_def read_var_def call_def await_def created_def

lemmas script_defs = set_up_def navigate_def check_script_def check_iframe_def print_requests_def
  print_responses_def check_container_def print_console_errors_def print_page_errors_def
  save_report_def take_screenshot_def inspect_def try_block_def catch_finally_def main_def
  build_report_def

lemmas handler_defs = on_request_def on_response_def on_console_def on_pageerror_def


lemma handler_lines_not_catch [simp]: "filter is_catch_line (map handler_line es) = []"
proof (induction es)
  case (Cons e es) then show ?case by (cases e) (simp_all add: is_catch_line_def)
qed simp

lemma main_ignores_argv: "main (env\<lparr>argv := a\<rparr>) = main env"
proof -
  have 1: "set_up (env\<lparr>argv := a\<rparr>) = set_up env"
    by (simp add: set_up_def)
  have 2: "inspect (env\<lparr>argv := a\<rparr>) = inspect env"
    by (simp add: inspect_def navigate_def check_script_def check_iframe_def check_container_def
          cong: option.case_cong)
  have 3: "save_report (env\<lparr>argv := a\<rparr>) = save_report env"
    by (intro ext) (simp add: save_report_def build_report_def)
  have 4: "take_screenshot (env\<lparr>argv := a\<rparr>) = take_screenshot env"
    by (simp add: take_screenshot_def)
  have 5: "try_block (env\<lparr>argv := a\<rparr>) = try_block env"
    by (simp add: try_block_def 2 3 4)
  have 6: "catch_finally (env\<lparr>argv := a\<rparr>) = catch_finally env"
    by (simp add: catch_finally_def)
  show ?thesis by (simp add: main_def 1 5 6 cong: prod.case_cong sum.case_cong)
qed

lemma Call_in_trace: "Call c \<in> set t \<longleftrightarrow> c \<in> set (calls t)"
  by (induction t rule: calls.induct) auto

lemma before_call_append:
  assumes "c \<notin> set (calls pre)"
  shows "before_call c (pre @ Call c # post) = pre"
proof -
  have "\<And>a. a \<in> set pre \<Longrightarrow> a \<noteq> Call c" using assms by (auto simp: Call_in_trace)
  then show ?thesis by (simp add: before_call_def)
qed

text \<open>What a report on disk holds.\<close>

lemma report_written:
  assumes "r \<in> set (reports_of (files (final (main env))))"
  obtains s gs gi greq gres s1 s3 ls where
    "set_up env init = (Inr (), s)" "inspect env s = (Inr (gs, gi, greq, gres), s1)"
    "r = build_report env gs gi greq gres (consoleLogs s1) (pageErrors s1)"
    "reports_of (files (final (main env))) = [r]"
    "snd (query_script_r env) = Inr gs" "snd (query_iframe_r env) = Inr gi"
    "collected s1" "collected s3"
    "greq = filter (\<lambda>q. mentions_giscus (req_url q)) (requests s3)"
    "gres = filter (\<lambda>q. mentions_giscus (res_url q)) (responses s3)"
    "before_call (WriteFileSync report_path) (trace (final (main env))) = trace s1"
    "before_call (Query container_selector) (trace (final (main env))) = trace s3 @ map Out ls"
    "\<exists>t. trace s1 = trace s3 @ t"
proof -
  note found = that
  have *: thesis
    if su: "set_up env init = (Inr (), s)" and ins: "inspect env s = (Inr (gs, gi, greq, gres), s1)"
      and fs: "reports_of (files (final (main env))) =
         [build_report env gs gi greq gres (consoleLogs s1) (pageErrors s1)]"
      and tr: "\<exists>post. trace (final (main env)) = trace s1 @ Call (WriteFileSync report_path) # post"
    for s gs gi greq gres s1
  proof -
    note sus = set_up_success [OF su]
    from fs assms have r: "r = build_report env gs gi greq gres (consoleLogs s1) (pageErrors s1)"
      by simp
    obtain s3 ls t where 3: "grows s s3"
      "calls (trace s3) = calls (trace s) @ navigate_plan @
        script_plan (present (query_script_r env)) @ iframe_plan (present (query_iframe_r env))"
      "snd (query_script_r env) = Inr gs" "snd (query_iframe_r env) = Inr gi"
      "greq = filter (\<lambda>r. mentions_giscus (req_url r)) (requests s3)"
      "gres = filter (\<lambda>r. mentions_giscus (res_url r)) (responses s3)"
      "trace s1 = trace s3 @ map Out ls @ Call (Query container_selector) # t"
      by (rule inspect_success [OF ins])
    have c1: "collected s1" using grows_collected [OF sus(3) safeD [OF safe_inspect ins]] .
    have c3: "collected s3" using grows_collected [OF sus(3) 3(1)] .
    have "calls (trace s1) = set_up_plan @ inspect_plan env"
      using follows_Inr [OF follows_inspect ins] sus(1) by (simp add: inspect_plan_def)
    then have "WriteFileSync report_path \<notin> set (calls (trace s1))"
      by (simp add: plan_defs)
    with tr have b1: "before_call (WriteFileSync report_path) (trace (final (main env))) = trace s1"
      by (auto simp: before_call_append)
    have "Query container_selector \<notin> set (calls (trace s3 @ map Out ls))"
      using 3(2) sus(1) by (simp add: plan_defs)
    moreover from tr 3(7) obtain post where
      "trace (final (main env)) = (trace s3 @ map Out ls) @ Call (Query container_selector) #
         (t @ Call (WriteFileSync report_path) # post)" by auto
    ultimately have b3: "before_call (Query container_selector) (trace (final (main env))) =
        trace s3 @ map Out ls"
      using before_call_append by metis
    have "\<exists>t. trace s1 = trace s3 @ t" using 3(7) by simp
    from found [OF su ins r _ 3(3,4) c1 c3 3(5,6) b1 b3 this] fs r show thesis by simp
  qed
  show thesis
  proof (cases env rule: main_files)
    case none
    with assms show ?thesis by simp
  next
    case (report_only s gs gi greq gres s1 e)
    then show ?thesis by (intro * [of s gs gi greq gres s1]) simp_all
  next
    case (both s gs gi greq gres s1)
    then show ?thesis by (intro * [of s gs gi greq gres s1]) simp_all
  qed
qed

lemma reports_at_most_one: "length (reports_of (files (final (main env)))) \<le> 1"
  by (cases env rule: main_files) simp_all

lemmas eval_defs = quiet_env_def script_defs prog_defs handler_defs init_def Let_def lit_def
  js_includes_def mentions_giscus_def sublist_Cons_right before_call_def giscus_request_def
  other_request_def giscus_response_def late_message_def page_error_def request_lines_def
  response_lines_def console_error_lines_def page_error_lines_def truthy_def

lemma busy_run:
  "outcome (main busy_env) = TryCompleted"
  "reports_of (files (final (main busy_env))) = [busy_report]"
  by (simp_all add: busy_env_def busy_report_def eval_defs)

lemma upto_throw_append:
  "upto_throw (a @ b) =
     (case snd (upto_throw a) of
        Some e \<Rightarrow> upto_throw a
      | None \<Rightarrow> (fst (upto_throw a) @ fst (upto_throw b), snd (upto_throw b)))"
  by (induction a rule: upto_throw.induct) (auto split: option.splits simp: prod_eq_iff)

lemma upto_throw_all_return:
  "(\<forall>x \<in> set rs. snd x = None) \<Longrightarrow> upto_throw rs = (map fst rs, None)"
  by (induction rs rule: upto_throw.induct) auto

lemma upto_throw_first:
  "\<forall>x \<in> set before. snd x = None \<Longrightarrow>
     upto_throw (before @ (c, Some e) # after) = (map fst before @ [c], Some e)"
  by (simp add: upto_throw_append upto_throw_all_return)

lemma upto_throw_None: "snd (upto_throw rs) = None \<Longrightarrow> fst (upto_throw rs) = map fst rs"
  by (induction rs rule: upto_throw.induct) auto


lemma upto_throw_Some: "snd (upto_throw rs) = Some e \<Longrightarrow> fst (upto_throw rs) \<noteq> []"
  by (induction rs rule: upto_throw.induct) auto

lemma upto_throw_length: "length (fst (upto_throw rs)) \<le> length rs"
  by (induction rs rule: upto_throw.induct) auto

lemma upto_throw_prefix: "prefix (fst (upto_throw rs)) (map fst rs)"
  by (induction rs rule: upto_throw.induct) auto

lemma obeysD:
  assumes "obeys m rs" "m s = (r, s')"
  obtains t where "trace s' = trace s @ t" "calls t = fst (upto_throw rs)"
    "thrown r = snd (upto_throw rs)"
  using assms unfolding obeys_def by blast

lemma obeys_ret: "obeys (ret x) []"
  by (simp add: obeys_def ret_def thrown_def)

lemma obeys_console_log: "obeys (console_log ls) []"
  by (simp add: obeys_def console_log_def thrown_def)

lemma obeys_call: "obeys (call c r) [(c, thrown r)]"
  by (cases "thrown r") (auto simp add: obeys_def call_def)

lemma obeys_await: "obeys (await c r) [(c, thrown (snd r))]"
  by (cases "thrown (snd r)") (auto simp add: obeys_def await_def deliver_eq)

lemma obeys_then_do:
  assumes m: "obeys m a" and f: "\<And>x s s'. m s = (Inr x, s') \<Longrightarrow> obeys (f x) b"
  shows "obeys (then_do m f) (a @ b)"
  unfolding obeys_def
proof (intro allI impI)
  fix s r s'
  assume run: "then_do m f s = (r, s')"
  show "\<exists>t. trace s' = trace s @ t \<and> calls t = fst (upto_throw (a @ b)) \<and>
           thrown r = snd (upto_throw (a @ b))"
  proof (rule then_do_cases [OF run])
    fix e assume ms: "m s = (Inl e, s')" and r: "r = Inl e"
    from obeysD [OF m ms] obtain t where
      t: "trace s' = trace s @ t" "calls t = fst (upto_throw a)"
        "thrown (Inl e :: js_error + 'a) = snd (upto_throw a)" .
    from t(3) have "snd (upto_throw a) = Some e" by (simp add: thrown_def)
    with t r show ?thesis by (auto simp: upto_throw_append thrown_def)
  next
    fix x s1 assume ms: "m s = (Inr x, s1)" and fx: "f x s1 = (r, s')"
    from obeysD [OF m ms] obtain t1 where
      t1: "trace s1 = trace s @ t1" "calls t1 = fst (upto_throw a)"
        "thrown (Inr x :: js_error + 'a) = snd (upto_throw a)" .
    from t1(3) have n: "snd (upto_throw a) = None" by (simp add: thrown_def)
    from obeysD [OF f [OF ms] fx] obtain t2 where
      t2: "trace s' = trace s1 @ t2" "calls t2 = fst (upto_throw b)"
        "thrown r = snd (upto_throw b)" .
    have "trace s' = trace s @ (t1 @ t2)" using t1 t2 by simp
    moreover have "calls (t1 @ t2) = fst (upto_throw (a @ b))"
      using t1 t2 n by (simp add: upto_throw_append)
    moreover have "thrown r = snd (upto_throw (a @ b))"
      using t2 n by (simp add: upto_throw_append)
    ultimately show ?thesis by blast
  qed
qed

lemma obeys_nil_then:
  assumes "obeys m []" "\<And>x. obeys (f x) b"
  shows "obeys (then_do m f) b"
  using obeys_then_do [OF assms(1), of f b] assms(2) by simp

lemma obeys_then_nil:
  assumes "obeys m a" "\<And>x. obeys (f x) []"
  shows "obeys (then_do m f) a"
  using obeys_then_do [OF assms(1), of f "[]"] assms(2) by simp

lemma obeys_follows_nil: "follows m [] \<Longrightarrow> (\<And>s r s'. m s = (r, s') \<Longrightarrow> thrown r = None) \<Longrightarrow> obeys m []"
  unfolding obeys_def follows_def by (metis fst_conv prefix_bot.extremum_uniqueI snd_conv upto_throw.simps(1))

lemma obeys_read_var: "obeys (read_var f) []"
  by (simp add: obeys_def read_var_def thrown_def)

lemma obeys_created: "obeys (created p c) []"
  by (simp add: obeys_def created_def thrown_def)

lemma obeys_log_then: "(\<And>x. obeys (f x) b) \<Longrightarrow> obeys (then_do (console_log ls) f) b"
  by (rule obeys_nil_then [OF obeys_console_log])

lemma obeys_read_then: "(\<And>x. obeys (f x) b) \<Longrightarrow> obeys (then_do (read_var g) f) b"
  by (rule obeys_nil_then [OF obeys_read_var])

lemma obeys_created_then: "(\<And>x. obeys (f x) b) \<Longrightarrow> obeys (then_do (created p c) f) b"
  by (rule obeys_nil_then [OF obeys_created])

lemma obeys_call_then:
  assumes "\<And>x. r = Inr x \<Longrightarrow> obeys (f x) b"
  shows "obeys (then_do (call c r) f) ((c, thrown r) # b)"
proof -
  have "obeys (then_do (call c r) f) ([(c, thrown r)] @ b)"
    by (rule obeys_then_do [OF obeys_call]) (simp add: call_def assms)
  then show ?thesis by simp
qed

lemma obeys_await_then:
  assumes "\<And>x. snd r = Inr x \<Longrightarrow> obeys (f x) b"
  shows "obeys (then_do (await c r) f) ((c, thrown (snd r)) # b)"
proof -
  have "obeys (then_do (await c r) f) ([(c, thrown (snd r))] @ b)"
    by (rule obeys_then_do [OF obeys_await]) (simp add: await_def assms)
  then show ?thesis by simp
qed

lemma obeys_if: "obeys a p \<Longrightarrow> obeys b p \<Longrightarrow> obeys (if c then a else b) p"
  by simp

lemma obeys_if_then:
  "obeys (then_do a f) p \<Longrightarrow> obeys (then_do b f) p \<Longrightarrow> obeys (then_do (if c then a else b) f) p"
  by simp

lemmas obeys_intros = obeys_log_then obeys_read_then obeys_created_then obeys_call_then
  obeys_await_then obeys_ret obeys_console_log obeys_call obeys_await

lemma obeys_set_up: "obeys (set_up env) (set_up_results env)"
  unfolding set_up_def set_up_results_def by (intro obeys_intros)

lemma obeys_navigate: "obeys (navigate env) (navigate_results env)"
  unfolding navigate_def navigate_results_def by (intro obeys_intros)

lemma obeys_check_script: "obeys (check_script env) (script_results env)"
proof (cases "present (query_script_r env)")
  case True
  have "\<And>x. snd (query_script_r env) = Inr x \<Longrightarrow> x \<noteq> None"
    using True by (auto simp: present_def split: sum.splits option.splits)
  then show ?thesis unfolding check_script_def script_results_def using True
    by (auto simp: Let_def then_do_assoc intro!: obeys_intros)
next
  case False
  have "\<And>x. snd (query_script_r env) = Inr x \<Longrightarrow> x = None"
    using False by (auto simp: present_def split: sum.splits option.splits)
  then show ?thesis unfolding check_script_def script_results_def using False
    by (auto simp: Let_def then_do_assoc intro!: obeys_intros)
qed

lemma obeys_check_iframe: "obeys (check_iframe env) (iframe_results env)"
proof (cases "present (query_iframe_r env)")
  case True
  have "\<And>x. snd (query_iframe_r env) = Inr x \<Longrightarrow> x \<noteq> None"
    using True by (auto simp: present_def split: sum.splits option.splits)
  then show ?thesis unfolding check_iframe_def iframe_results_def using True
    by (auto simp: Let_def then_do_assoc simp del: append.simps split del: if_split
          intro!: obeys_intros)
next
  case False
  have "\<And>x. snd (query_iframe_r env) = Inr x \<Longrightarrow> x = None"
    using False by (auto simp: present_def split: sum.splits option.splits)
  then show ?thesis unfolding check_iframe_def iframe_results_def using False
    by (auto simp: Let_def then_do_assoc simp del: append.simps split del: if_split
          intro!: obeys_intros)
qed

lemma obeys_check_container: "obeys (check_container env) (container_results env)"
proof (cases "present (query_container_r env)")
  case True
  have "\<And>x. snd (query_container_r env) = Inr x \<Longrightarrow> x \<noteq> None"
    using True by (auto simp: present_def split: sum.splits option.splits)
  then show ?thesis unfolding check_container_def container_results_def using True
    by (auto simp: Let_def then_do_assoc simp del: append.simps split del: if_split
          intro!: obeys_intros)
next
  case False
  have "\<And>x. snd (query_container_r env) = Inr x \<Longrightarrow> x = None"
    using False by (auto simp: present_def split: sum.splits option.splits)
  then show ?thesis unfolding check_container_def container_results_def using False
    by (auto simp: Let_def then_do_assoc simp del: append.simps split del: if_split
          intro!: obeys_intros)
qed

lemma obeys_print_requests: "obeys print_requests []"
  unfolding print_requests_def Let_def then_do_assoc
  by (intro obeys_intros obeys_if obeys_if_then)

lemma obeys_print_responses: "obeys print_responses []"
  unfolding print_responses_def Let_def then_do_assoc
  by (intro obeys_intros obeys_if obeys_if_then)

lemma obeys_print_console_errors: "obeys print_console_errors []"
  unfolding print_console_errors_def Let_def
  by (intro obeys_intros obeys_if obeys_if_then)

lemma obeys_print_page_errors: "obeys print_page_errors []"
  unfolding print_page_errors_def Let_def
  by (intro obeys_intros obeys_if obeys_if_then)

lemma obeys_save_report: "obeys (save_report env gs gi greq gres) (write_results env)"
  unfolding save_report_def Let_def write_results_def
  by (intro obeys_intros)

lemma obeys_take_screenshot:
  "obeys (take_screenshot env) [(Screenshot screenshot_path True, thrown (snd (screenshot_r env)))]"
  unfolding take_screenshot_def
  by (intro obeys_intros)

lemma obeys_inspect: "obeys (inspect env) (inspect_results env)"
proof -
  have "obeys (inspect env)
     (navigate_results env @ script_results env @ iframe_results env @ [] @ [] @
      container_results env @ [] @ [] @ [])"
    unfolding inspect_def
    by (intro obeys_then_do obeys_navigate obeys_check_script obeys_check_iframe
          obeys_print_requests obeys_print_responses obeys_check_container
          obeys_print_console_errors obeys_print_page_errors obeys_ret)
  then show ?thesis by (simp add: inspect_results_def)
qed

lemma obeys_save_and_shoot:
  "obeys (then_do (save_report env gs gi greq gres) (\<lambda>_. take_screenshot env))
     (write_results env @ [(Screenshot screenshot_path True, thrown (snd (screenshot_r env)))])"
  by (intro obeys_then_do obeys_save_report obeys_take_screenshot)

lemma obeys_try_block: "obeys (try_block env) (try_results env)"
proof -
  have "obeys (try_block env)
     (inspect_results env @ write_results env @
      [(Screenshot screenshot_path True, thrown (snd (screenshot_r env)))])"
    unfolding try_block_def
    by (intro obeys_then_do obeys_inspect) (auto intro: obeys_save_and_shoot)
  then show ?thesis by (simp add: try_results_def)
qed

lemma map_fst_set_up_results: "map fst (set_up_results env) = set_up_plan"
  by (simp add: set_up_results_def set_up_plan_def)

text \<open>The calls and the outcome of a run, read off the results of its calls.\<close>

lemma main_exact:
  "calls (trace (final (main env))) = expected_calls env"
  "outcome (main env) = expected_outcome env"
proof -
  have "calls (trace (final (main env))) = expected_calls env \<and>
        outcome (main env) = expected_outcome env"
  proof (cases env rule: main_cases)
    case (setup_threw e s)
    from obeysD [OF obeys_set_up setup_threw(1)] obtain t where
      t: "trace s = trace init @ t" "calls t = fst (upto_throw (set_up_results env))"
         "thrown (Inl e :: js_error + unit) = snd (upto_throw (set_up_results env))" .
    from t(3) have "snd (upto_throw (set_up_results env)) = Some e" by (simp add: thrown_def)
    with t setup_threw(2) show ?thesis
      by (simp add: expected_calls_def expected_outcome_def init_def)
  next
    case (try_threw s e s1)
    from obeysD [OF obeys_set_up try_threw(1)] obtain t0 where
      "thrown (Inr () :: js_error + unit) = snd (upto_throw (set_up_results env))" .
    then have su: "snd (upto_throw (set_up_results env)) = None" by (simp add: thrown_def)
    from obeysD [OF obeys_try_block try_threw(2)] obtain t where
      t: "trace s1 = trace s @ t" "calls t = fst (upto_throw (try_results env))"
         "thrown (Inl e :: js_error + unit) = snd (upto_throw (try_results env))" .
    from t(3) have "snd (upto_throw (try_results env)) = Some e" by (simp add: thrown_def)
    with t su try_threw(3,4) set_up_success(1) [OF try_threw(1)] show ?thesis
      by (simp add: expected_calls_def expected_outcome_def deliver_eq map_fst_set_up_results)
  next
    case (try_completed s s1)
    from obeysD [OF obeys_set_up try_completed(1)] obtain t0 where
      "thrown (Inr () :: js_error + unit) = snd (upto_throw (set_up_results env))" .
    then have su: "snd (upto_throw (set_up_results env)) = None" by (simp add: thrown_def)
    from obeysD [OF obeys_try_block try_completed(2)] obtain t where
      t: "trace s1 = trace s @ t" "calls t = fst (upto_throw (try_results env))"
         "thrown (Inr () :: js_error + unit) = snd (upto_throw (try_results env))" .
    from t(3) have "snd (upto_throw (try_results env)) = None" by (simp add: thrown_def)
    with t su try_completed(3,4) set_up_success(1) [OF try_completed(1)] show ?thesis
      by (simp add: expected_calls_def expected_outcome_def deliver_eq map_fst_set_up_results)
  qed
  then show "calls (trace (final (main env))) = expected_calls env"
    "outcome (main env) = expected_outcome env" by simp_all
qed

lemma returned_append:
  "returned (a @ b) = (if snd (upto_throw a) = None then map fst a @ returned b else returned a)"
  by (induction a rule: returned.induct) auto

lemma returned_subset: "set (returned rs) \<subseteq> fst ` set rs"
  by (induction rs rule: returned.induct) auto

lemma map_fst_inspect_results: "map fst (inspect_results env) = inspect_plan env"
  by (simp add: inspect_results_def navigate_results_def script_results_def iframe_results_def
        container_results_def plan_defs)

lemma map_fst_try_results: "map fst (try_results env) = run_plan env"
  by (simp add: try_results_def write_results_def map_fst_inspect_results run_plan_inspect)

lemma inspect_plan_no_paths: "concat (map path_written (inspect_plan env)) = []"
  by (auto simp: plan_defs)

lemma returned_inspect_no_paths: "concat (map path_written (returned (inspect_results env))) = []"
proof -
  have "path_written c = []" if "c \<in> set (inspect_plan env)" for c
    using that by (auto simp: plan_defs split: if_splits)
  moreover have "set (returned (inspect_results env)) \<subseteq> set (inspect_plan env)"
    using returned_subset [of "inspect_results env"] map_fst_inspect_results [of env]
    by (metis set_map)
  ultimately show ?thesis by (auto simp: concat_eq_Nil_conv)
qed

text \<open>The paths of the files the try block writes.\<close>

lemma try_block_paths:
  assumes "try_block env s = (r, s')"
  shows "map fst (files s') =
    map fst (files s) @ concat (map path_written (returned (try_results env)))"
proof -
  from assms have run: "then_do (inspect env) (\<lambda>(gs, gi, greq, gres).
     then_do (save_report env gs gi greq gres) (\<lambda>_. take_screenshot env)) s = (r, s')"
    by (simp add: try_block_def)
  show ?thesis
  proof (rule then_do_cases [OF run])
    fix e assume ins: "inspect env s = (Inl e, s')"
    from obeysD [OF obeys_inspect ins] obtain t where
      "thrown (Inl e :: js_error + handle option \<times> handle option \<times> request_rec list \<times> response_rec list)
         = snd (upto_throw (inspect_results env))" .
    then have "snd (upto_throw (inspect_results env)) = Some e" by (simp add: thrown_def)
    then have "returned (try_results env) = returned (inspect_results env)"
      by (simp add: try_results_def returned_append)
    with keepsD [OF keeps_inspect ins] show ?thesis
      by (simp add: returned_inspect_no_paths)
  next
    fix x s1
    assume ins: "inspect env s = (Inr x, s1)"
      and rest: "(case x of (gs, gi, greq, gres) \<Rightarrow>
         then_do (save_report env gs gi greq gres) (\<lambda>_. take_screenshot env)) s1 = (r, s')"
    obtain gs gi greq gres where x: "x = (gs, gi, greq, gres)" by (cases x)
    from obeysD [OF obeys_inspect ins] obtain t where
      "thrown (Inr x :: js_error + handle option \<times> handle option \<times> request_rec list \<times> response_rec list)
         = snd (upto_throw (inspect_results env))" .
    then have n: "snd (upto_throw (inspect_results env)) = None" by (simp add: thrown_def)
    have ret: "returned (try_results env) = inspect_plan env @
        returned (write_results env @
          [(Screenshot screenshot_path True, thrown (snd (screenshot_r env)))])"
      using n by (simp add: try_results_def returned_append map_fst_inspect_results)
    have f1: "files s1 = files s" using keepsD [OF keeps_inspect ins] .
    from rest x have "map fst (files s') = map fst (files s1) @
        concat (map path_written (returned (write_results env @
          [(Screenshot screenshot_path True, thrown (snd (screenshot_r env)))])))"
      by (auto simp: then_do_def save_report_eq take_screenshot_eq write_results_def thrown_def
            deliver_eq split: sum.splits)
    with ret f1 show ?thesis by (simp add: inspect_plan_no_paths)
  qed
qed

lemma main_paths: "map fst (files (final (main env))) = expected_paths env"
proof (cases env rule: main_cases)
  case (setup_threw e s)
  from obeysD [OF obeys_set_up setup_threw(1)] obtain t where
    "thrown (Inl e :: js_error + unit) = snd (upto_throw (set_up_results env))" .
  then have "snd (upto_throw (set_up_results env)) = Some e" by (simp add: thrown_def)
  with setup_threw(2) set_up_failure(2) [OF setup_threw(1)] show ?thesis
    by (simp add: expected_paths_def)
next
  case (try_threw s e s1)
  from obeysD [OF obeys_set_up try_threw(1)] obtain t0 where
    "thrown (Inr () :: js_error + unit) = snd (upto_throw (set_up_results env))" .
  then have su: "snd (upto_throw (set_up_results env)) = None" by (simp add: thrown_def)
  with try_block_paths [OF try_threw(2)] try_threw(4) set_up_success(2) [OF try_threw(1)]
  show ?thesis by (simp add: expected_paths_def)
next
  case (try_completed s s1)
  from obeysD [OF obeys_set_up try_completed(1)] obtain t0 where
    "thrown (Inr () :: js_error + unit) = snd (upto_throw (set_up_results env))" .
  then have su: "snd (upto_throw (set_up_results env)) = None" by (simp add: thrown_def)
  with try_block_paths [OF try_completed(2)] try_completed(4) set_up_success(2) [OF try_completed(1)]
  show ?thesis by (simp add: expected_paths_def)
qed



lemma answers_alike:
  "answers a = answers b \<Longrightarrow>
     fst (upto_throw a) = fst (upto_throw b) \<and>
     (snd (upto_throw a) = None \<longleftrightarrow> snd (upto_throw b) = None) \<and>
     returned a = returned b"
proof (induction a arbitrary: b rule: upto_throw.induct)
  case 1
  then show ?case by (simp add: answers_def)
next
  case (2 c e rs)
  then obtain c' e' rs' where "b = (c', Some e') # rs'" "c' = c"
    by (cases b) (auto simp: answers_def)
  with 2 show ?case by (simp add: answers_def)
next
  case (3 c rs)
  then obtain rs' where b: "b = (c, None) # rs'" "answers rs = answers rs'"
    by (cases b) (auto simp: answers_def)
  with "3.IH" [of rs'] show ?case by simp
qed

lemma answers_calls: "answers a = answers b \<Longrightarrow> map fst a = map fst b"
proof -
  assume "answers a = answers b"
  then have "map fst (answers a) = map fst (answers b)" by simp
  then show ?thesis by (simp add: answers_def comp_def)
qed

lemma expected_alike:
  assumes "answers (set_up_results env') = answers (set_up_results env)"
    and "answers (try_results env') = answers (try_results env)"
  shows "expected_calls env' = expected_calls env" "expected_paths env' = expected_paths env"
proof -
  note 1 = answers_alike [OF assms(1)] answers_calls [OF assms(1)]
    and 2 = answers_alike [OF assms(2)]
  show "expected_calls env' = expected_calls env"
    using 1 2 by (cases "snd (upto_throw (set_up_results env))";
      cases "snd (upto_throw (set_up_results env'))") (simp_all add: expected_calls_def)
  show "expected_paths env' = expected_paths env"
    using 1 2 by (cases "snd (upto_throw (set_up_results env))";
      cases "snd (upto_throw (set_up_results env'))") (simp_all add: expected_paths_def)
qed


section \<open>The claims\<close>







text \<open>
  C3. The claim fails: the script also branches on the data it has collected. Two runs in
  which the three queries answer alike, and which differ only in the status of one response
  (200 or 404), do not print the same lines: only the second prints the warning of line 134,
  which is behind the test \<^verbatim>\<open>res.status >= 400\<close>.
\<close>

theorem branch_on_response_status:
  "query_script_r (status_env 200) = query_script_r (status_env 404) \<and>
   query_iframe_r (status_env 200) = query_iframe_r (status_env 404) \<and>
   query_container_r (status_env 200) = query_container_r (status_env 404) \<and>
   outcome (main (status_env 200)) = TryCompleted \<and>
   outcome (main (status_env 404)) = TryCompleted \<and>
   Line 134 [] \<notin> set (printed (trace (final (main (status_env 200))))) \<and>
   Line 134 [] \<in> set (printed (trace (final (main (status_env 404)))))"
  by (simp add: status_env_def eval_defs)

text \<open>
  C3, amended. Which calls a run makes, and at which paths it writes files, is decided by the
  results of its calls alone: by which of them throw and, for the three queries, by whether
  they answer with an element. The presence checks on the three query results are the only
  branches of the script that decide a call: runs whose calls answer alike make the same
  calls and write at the same paths, whatever data they collect. The other branches of the
  script (on the length of the iframe address, of a request address and of the container's
  HTML, on the status of a response, on whether a list is empty and on whether a page error
  has a stack) only choose console lines.
\<close>

theorem only_presence_checks_decide_the_calls:
  "calls (trace (final (main env))) = expected_calls env \<and>
   map fst (files (final (main env))) = expected_paths env \<and>
   (answers (set_up_results env') = answers (set_up_results env) \<and>
    answers (try_results env') = answers (try_results env) \<longrightarrow>
      calls (trace (final (main env'))) = calls (trace (final (main env))) \<and>
      map fst (files (final (main env'))) = map fst (files (final (main env))))"
  using expected_alike [of env' env] by (simp add: main_exact main_paths)

theorem only_presence_checks_decide_the_calls_witness:
  "answers (set_up_results (status_env 404)) = answers (set_up_results (status_env 200)) \<and>
   answers (try_results (status_env 404)) = answers (try_results (status_env 200)) \<and>
   calls (trace (final (main (status_env 404)))) = calls (trace (final (main (status_env 200)))) \<and>
   map fst (files (final (main (status_env 404)))) = map fst (files (final (main (status_env 200)))) \<and>
   calls (trace (final (main (status_env 200)))) =
     [Launch False, NewContext, NewPage, Goto target_url ''networkidle'' 30000,
      WaitForTimeout 5000, Query script_selector, Query iframe_selector,
      Query container_selector, WriteFileSync report_path, Screenshot screenshot_path True,
      Close]"
proof -
  have a: "answers (set_up_results (status_env 404)) = answers (set_up_results (status_env 200))"
    "answers (try_results (status_env 404)) = answers (try_results (status_env 200))"
    by (simp_all add: status_env_def quiet_env_def set_up_results_def try_results_def
          inspect_results_def navigate_results_def script_results_def iframe_results_def
          container_results_def write_results_def thrown_def present_def answers_def)
  have e: "expected_calls (status_env 200) =
     [Launch False, NewContext, NewPage, Goto target_url ''networkidle'' 30000,
      WaitForTimeout 5000, Query script_selector, Query iframe_selector,
      Query container_selector, WriteFileSync report_path, Screenshot screenshot_path True,
      Close]"
    by (simp add: status_env_def quiet_env_def set_up_results_def try_results_def
          inspect_results_def navigate_results_def script_results_def iframe_results_def
          container_results_def write_results_def thrown_def present_def expected_calls_def)
  from only_presence_checks_decide_the_calls [of "status_env 200" "status_env 404"] a e
  show ?thesis by simp
qed

text \<open>
  C4. When the try block completes, the run has written exactly two files: first the report,
  at the path of the JSON report, then the screenshot, at the path of the PNG; the two calls
  that write a file are \<^verbatim>\<open>writeFileSync\<close> and then \<^verbatim>\<open>screenshot\<close>.
\<close>

theorem completed_run_writes_report_then_screenshot:
  assumes "outcome (main env) = TryCompleted"
  shows "(\<exists>r. files (final (main env)) = [(report_path, Json r), (screenshot_path, Png)]) \<and>
    filter writes_file (calls (trace (final (main env)))) =
      [WriteFileSync report_path, Screenshot screenshot_path True]"
proof -
  have f: "\<exists>r. files (final (main env)) = [(report_path, Json r), (screenshot_path, Png)]"
    using assms by (cases env rule: main_files) simp_all
  have "calls (trace (final (main env))) = set_up_plan @ run_plan env @ [Close]"
    using assms by (cases env rule: main_calls) simp_all
  with f show ?thesis using full_plan_writes [of env] by simp
qed

theorem completed_run_writes_report_then_screenshot_witness:
  "outcome (main quiet_env) = TryCompleted \<and>
   (\<exists>r. files (final (main quiet_env)) = [(report_path, Json r), (screenshot_path, Png)]) \<and>
   filter writes_file (calls (trace (final (main quiet_env)))) =
      [WriteFileSync report_path, Screenshot screenshot_path True]"
proof -
  have h: "outcome (main quiet_env) = TryCompleted"
    by (simp add: quiet_env_def script_defs prog_defs init_def Let_def)
  from completed_run_writes_report_then_screenshot [OF h] h show ?thesis by simp
qed

text \<open>
  C5. The run does not depend on the command line. Every navigation goes to the one address
  written in the script, every \<^verbatim>\<open>writeFileSync\<close> writes to the one report path and every
  screenshot to the one screenshot path; the files of a run are at these two paths, which are
  absolute.
\<close>

theorem no_parameters_fixed_address_and_paths:
  "main (env\<lparr>argv := a\<rparr>) = main env \<and>
   (\<forall>c \<in> set (calls (trace (final (main env)))). fixed_arguments c) \<and>
   set (map fst (files (final (main env)))) \<subseteq> {report_path, screenshot_path} \<and>
   target_url = ''http://localhost:1313/posts/7/'' \<and>
   report_path = ''/Users/nio/ddnio.github.io/giscus-diagnostic-report.json'' \<and>
   screenshot_path = ''/Users/nio/ddnio.github.io/giscus-screenshot.png'' \<and>
   hd report_path = CHR ''/'' \<and> hd screenshot_path = CHR ''/''"
proof -
  have "main (env\<lparr>argv := a\<rparr>) = main env"
    by (rule main_ignores_argv)
  moreover have "\<forall>c \<in> set (calls (trace (final (main env)))). fixed_arguments c"
    using calls_main_planned [of env] planned_fixed_arguments [of _ env] by blast
  moreover have "set (map fst (files (final (main env)))) \<subseteq> {report_path, screenshot_path}"
    by (cases env rule: main_files) simp_all
  ultimately show ?thesis
    by (simp add: target_url_def report_path_def screenshot_path_def)
qed

theorem no_parameters_fixed_address_and_paths_witness:
  "Goto target_url ''networkidle'' 30000 \<in> set (calls (trace (final (main quiet_env)))) \<and>
   fixed_arguments (Goto target_url ''networkidle'' 30000) \<and>
   main (quiet_env\<lparr>argv := [lit ''--url'', lit ''http://example.org/'']\<rparr>) = main quiet_env"
proof -
  have h: "Goto target_url ''networkidle'' 30000 \<in> set (calls (trace (final (main quiet_env))))"
    by (simp add: quiet_env_def script_defs prog_defs init_def Let_def)
  from no_parameters_fixed_address_and_paths
    [where env = quiet_env and a = "[lit ''--url'', lit ''http://example.org/'']"]
  have "main (quiet_env\<lparr>argv := [lit ''--url'', lit ''http://example.org/'']\<rparr>) = main quiet_env"
    and "\<forall>c \<in> set (calls (trace (final (main quiet_env)))). fixed_arguments c"
    by blast+
  with h show ?thesis by blast
qed

text \<open>
  C6. Each of the four arrays changes only by an append at its end, made by its own listener:
  the \<^verbatim>\<open>request\<close> listener appends one record to \<open>requests\<close> and leaves the other three
  arrays alone, and likewise for \<^verbatim>\<open>response\<close>, \<^verbatim>\<open>console\<close> and \<^verbatim>\<open>pageerror\<close>. Nothing else in
  the script touches them: however a run ends, each array holds exactly the records of the
  events of its kind that the page delivered, in the order of delivery.
\<close>

theorem lists_appended_only_by_own_listener:
  "(requests (on_request r s) = requests s @ [r] \<and> responses (on_request r s) = responses s \<and>
    consoleLogs (on_request r s) = consoleLogs s \<and> pageErrors (on_request r s) = pageErrors s) \<and>
   (responses (on_response p s) = responses s @ [p] \<and> requests (on_response p s) = requests s \<and>
    consoleLogs (on_response p s) = consoleLogs s \<and> pageErrors (on_response p s) = pageErrors s) \<and>
   (consoleLogs (on_console m s) = consoleLogs s @ [m] \<and> requests (on_console m s) = requests s \<and>
    responses (on_console m s) = responses s \<and> pageErrors (on_console m s) = pageErrors s) \<and>
   (pageErrors (on_pageerror e s) = pageErrors s @ [e] \<and> requests (on_pageerror e s) = requests s \<and>
    responses (on_pageerror e s) = responses s \<and> consoleLogs (on_pageerror e s) = consoleLogs s) \<and>
   requests (final (main env)) = requests_of (events (trace (final (main env)))) \<and>
   responses (final (main env)) = responses_of (events (trace (final (main env)))) \<and>
   consoleLogs (final (main env)) = consoles_of (events (trace (final (main env)))) \<and>
   pageErrors (final (main env)) = pageerrors_of (events (trace (final (main env))))"
proof -
  have "collected (final (main env))" by (rule collected_main)
  then show ?thesis
    by (simp add: collected_def on_request_def on_response_def on_console_def on_pageerror_def
          Let_def)
qed

text \<open>
  C7. The calls of a run are pairwise different, so no step is made twice. They are an initial
  part of one fixed sequence, followed at most by \<^verbatim>\<open>close\<close>: one \<^verbatim>\<open>launch\<close>, one \<^verbatim>\<open>newContext\<close>,
  one \<^verbatim>\<open>newPage\<close>, one \<^verbatim>\<open>goto\<close> to the address of the script, one wait of 5000 ms, and only then
  the queries. A run that makes a query has made these five calls first, in this order; a run
  whose try block completes has made the whole sequence.
\<close>

theorem single_linear_sequence:
  "distinct (calls (trace (final (main env)))) \<and>
   (\<exists>p. prefix p (set_up_plan @ run_plan env) \<and>
        (calls (trace (final (main env))) = p \<or> calls (trace (final (main env))) = p @ [Close])) \<and>
   (\<exists>rest. set_up_plan @ run_plan env =
        [Launch False, NewContext, NewPage, Goto target_url ''networkidle'' 30000,
         WaitForTimeout 5000, Query script_selector] @ rest) \<and>
   (\<forall>sel. Query sel \<in> set (calls (trace (final (main env)))) \<longrightarrow>
        take 5 (calls (trace (final (main env)))) =
          [Launch False, NewContext, NewPage, Goto target_url ''networkidle'' 30000,
           WaitForTimeout 5000]) \<and>
   (outcome (main env) = TryCompleted \<longrightarrow>
        calls (trace (final (main env))) = set_up_plan @ run_plan env @ [Close])"
proof -
  let ?c = "calls (trace (final (main env)))"
  have 1: "distinct ?c" by (rule distinct_calls_main)
  have 2: "\<exists>p. prefix p (set_up_plan @ run_plan env) \<and> (?c = p \<or> ?c = p @ [Close])"
    by (rule run_shape)
  have 3: "\<exists>rest. set_up_plan @ run_plan env =
        [Launch False, NewContext, NewPage, Goto target_url ''networkidle'' 30000,
         WaitForTimeout 5000, Query script_selector] @ rest"
    by (simp add: plan_defs)
  have 4: "take 5 ?c = [Launch False, NewContext, NewPage, Goto target_url ''networkidle'' 30000,
           WaitForTimeout 5000]" if q: "Query sel \<in> set ?c" for sel
  proof -
    from 2 obtain p where p: "prefix p (set_up_plan @ run_plan env)"
      and c: "?c = p \<or> ?c = p @ [Close]" by blast
    from q c have qp: "Query sel \<in> set p" by auto
    from 3 obtain rest where r: "set_up_plan @ run_plan env =
        [Launch False, NewContext, NewPage, Goto target_url ''networkidle'' 30000,
         WaitForTimeout 5000, Query script_selector] @ rest" by blast
    from p r qp obtain p' where "p = [Launch False, NewContext, NewPage,
        Goto target_url ''networkidle'' 30000, WaitForTimeout 5000] @ p'"
      by (auto simp: prefix_Cons)
    with c show ?thesis by auto
  qed
  have 5: "?c = set_up_plan @ run_plan env @ [Close]" if "outcome (main env) = TryCompleted"
    using that by (cases env rule: main_calls) simp_all
  from 1 2 3 4 5 show ?thesis by blast
qed

theorem single_linear_sequence_witness:
  "Query script_selector \<in> set (calls (trace (final (main quiet_env)))) \<and>
   take 5 (calls (trace (final (main quiet_env)))) =
     [Launch False, NewContext, NewPage, Goto target_url ''networkidle'' 30000,
      WaitForTimeout 5000] \<and>
   outcome (main quiet_env) = TryCompleted \<and>
   calls (trace (final (main quiet_env))) = set_up_plan @ run_plan quiet_env @ [Close]"
proof -
  have h: "Query script_selector \<in> set (calls (trace (final (main quiet_env))))"
    "outcome (main quiet_env) = TryCompleted"
    by (simp_all add: quiet_env_def script_defs prog_defs init_def Let_def)
  from single_linear_sequence [of quiet_env] h show ?thesis by blast
qed

text \<open>
  C8. If a call of lines 4-175 throws \<open>e\<close> and every call before it returns, the run makes
  the calls before the failing one, the failing one, and then only \<^verbatim>\<open>close\<close> (not even that
  when the failing call is one of the three of set-up): none of the calls after the failing
  one is made. It writes no file, calls neither \<^verbatim>\<open>writeFileSync\<close> nor \<^verbatim>\<open>screenshot\<close>, and
  makes no call twice.
\<close>

theorem failure_before_report_skips_the_rest:
  assumes "set_up_results env @ inspect_results env = before @ (c, Some e) # after"
    and "\<forall>x \<in> set before. snd x = None"
  shows "calls (trace (final (main env))) =
      map fst before @ [c] @ (if length before < 3 then [] else [Close]) \<and>
    outcome (main env) = (if length before < 3 then SetupThrew e else TryThrew e) \<and>
    files (final (main env)) = [] \<and>
    filter writes_file (calls (trace (final (main env)))) = [] \<and>
    distinct (calls (trace (final (main env))))"
proof -
  let ?a = "set_up_results env" and ?b = "inspect_results env"
  have la: "length ?a = 3" by (simp add: set_up_results_def)
  from assms have u: "upto_throw (?a @ ?b) = (map fst before @ [c], Some e)"
    by (simp add: upto_throw_first)
  have d: "distinct (calls (trace (final (main env))))" by (rule distinct_calls_main)
  have w: "filter writes_file (map fst before @ [c]) = []"
  proof -
    have "prefix (fst (upto_throw (?a @ ?b))) (map fst (?a @ ?b))" by (rule upto_throw_prefix)
    then have "prefix (map fst before @ [c]) (set_up_plan @ inspect_plan env)"
      using u by (simp add: map_fst_set_up_results map_fst_inspect_results)
    from prefix_filter_Nil [OF this inspect_plan_writes_nothing] show ?thesis .
  qed
  show ?thesis
  proof (cases "snd (upto_throw ?a)")
    case (Some e')
    with u have ua: "upto_throw ?a = (map fst before @ [c], Some e)"
      by (simp add: upto_throw_append)
    have "length (fst (upto_throw ?a)) \<le> 3" using upto_throw_length [of ?a] la by simp
    with ua have l: "length before < 3" by simp
    have "map fst (files (final (main env))) = []"
      using ua by (simp add: main_paths expected_paths_def)
    then have f: "files (final (main env)) = []" by simp
    have c: "calls (trace (final (main env))) = map fst before @ [c]"
      using ua by (simp add: main_exact expected_calls_def)
    have o: "outcome (main env) = SetupThrew e"
      using ua by (simp add: main_exact expected_outcome_def)
    from l f c o w d show ?thesis by (auto split: if_splits)
  next
    case None
    then have fa: "fst (upto_throw ?a) = map fst ?a" by (rule upto_throw_None)
    from u None fa have ub: "snd (upto_throw ?b) = Some e"
      and eq: "map fst ?a @ fst (upto_throw ?b) = map fst before @ [c]"
      by (simp_all add: upto_throw_append)
    from upto_throw_Some [OF ub] have "length (fst (upto_throw ?b)) \<ge> 1"
      by (cases "fst (upto_throw ?b)") simp_all
    moreover from eq have "length (map fst ?a @ fst (upto_throw ?b)) = length (map fst before @ [c])"
      by simp
    ultimately have l: "\<not> length before < 3" using la by simp
    have ut: "upto_throw (try_results env) = upto_throw ?b"
      using ub by (simp add: try_results_def upto_throw_append)
    have rt: "returned (try_results env) = returned ?b"
      using ub by (simp add: try_results_def returned_append)
    have "map fst (files (final (main env))) = []"
      using None rt by (simp add: main_paths expected_paths_def returned_inspect_no_paths)
    then have f: "files (final (main env)) = []" by simp
    have c: "calls (trace (final (main env))) = map fst before @ [c] @ [Close]"
      using None ut eq by (simp add: main_exact expected_calls_def)
    have o: "outcome (main env) = TryThrew e"
      using None ut ub by (simp add: main_exact expected_outcome_def)
    from l f c o w d show ?thesis by (auto split: if_splits)
  qed
qed

theorem failure_before_report_skips_the_rest_witness:
  "set_up_results wait_fails_env @ inspect_results wait_fails_env =
     [(Launch False, None), (NewContext, None), (NewPage, None),
      (Goto target_url ''networkidle'' 30000, None)] @ (WaitForTimeout 5000, Some boom) #
     [(Query script_selector, None), (Query iframe_selector, None),
      (Query container_selector, None)] \<and>
   calls (trace (final (main wait_fails_env))) =
     [Launch False, NewContext, NewPage, Goto target_url ''networkidle'' 30000,
      WaitForTimeout 5000, Close] \<and>
   outcome (main wait_fails_env) = TryThrew boom \<and>
   files (final (main wait_fails_env)) = [] \<and>
   filter writes_file (calls (trace (final (main wait_fails_env)))) = []"
proof -
  have r: "set_up_results wait_fails_env @ inspect_results wait_fails_env =
     [(Launch False, None), (NewContext, None), (NewPage, None),
      (Goto target_url ''networkidle'' 30000, None)] @ (WaitForTimeout 5000, Some boom) #
     [(Query script_selector, None), (Query iframe_selector, None),
      (Query container_selector, None)]"
    by (simp add: wait_fails_env_def quiet_env_def set_up_results_def inspect_results_def
          navigate_results_def script_results_def iframe_results_def container_results_def
          thrown_def present_def)
  have b: "\<forall>x \<in> set [(Launch False, None :: js_error option), (NewContext, None),
      (NewPage, None), (Goto target_url ''networkidle'' 30000, None)]. snd x = None"
    by simp
  from failure_before_report_skips_the_rest [OF r b] r show ?thesis by simp
qed

text \<open>
  C9. The claim fails for the requests and responses that arrive after the filters of lines
  111 and 127 have run. Here a giscus request and a console message arrive while the script
  awaits the query of line 142: both were captured before the report was written, the message
  is in the report and the request is not.
\<close>

theorem late_giscus_request_not_in_report:
  "reports_of (files (final (main late_env))) = [late_report] \<and>
   rep_requests late_report = [] \<and>
   filter (\<lambda>q. mentions_giscus (req_url q))
     (requests_of (events (before_call (WriteFileSync report_path)
        (trace (final (main late_env)))))) = [giscus_request] \<and>
   rep_consoleLogs late_report = [late_message]"
  by (simp add: late_env_def late_report_def eval_defs)

text \<open>
  C9, amended. The requests and responses of the report are exactly the request and response
  records captured before the query for the container (line 142) whose address contains
  \<^verbatim>\<open>giscus\<close>, in the order of capture; its console messages and page errors are all those
  captured before the report was written, unfiltered.
\<close>

theorem report_lists_filtered_before_container_query:
  assumes "r \<in> set (reports_of (files (final (main env))))"
  shows "rep_requests r = filter (\<lambda>q. mentions_giscus (req_url q))
      (requests_of (events (before_call (Query container_selector) (trace (final (main env)))))) \<and>
    rep_responses r = filter (\<lambda>q. mentions_giscus (res_url q))
      (responses_of (events (before_call (Query container_selector) (trace (final (main env)))))) \<and>
    rep_consoleLogs r =
      consoles_of (events (before_call (WriteFileSync report_path) (trace (final (main env))))) \<and>
    rep_pageErrors r =
      pageerrors_of (events (before_call (WriteFileSync report_path) (trace (final (main env))))) \<and>
    (\<forall>url. mentions_giscus url = sublist (lit ''giscus'') url)"
proof -
  from assms obtain s gs gi greq gres s1 s3 ls where w:
    "r = build_report env gs gi greq gres (consoleLogs s1) (pageErrors s1)"
    "collected s1" "collected s3"
    "greq = filter (\<lambda>q. mentions_giscus (req_url q)) (requests s3)"
    "gres = filter (\<lambda>q. mentions_giscus (res_url q)) (responses s3)"
    "before_call (WriteFileSync report_path) (trace (final (main env))) = trace s1"
    "before_call (Query container_selector) (trace (final (main env))) = trace s3 @ map Out ls"
    by (rule report_written) blast
  then show ?thesis
    by (simp add: build_report_def collected_def mentions_giscus_def js_includes_def)
qed

theorem report_lists_filtered_before_container_query_witness:
  "busy_report \<in> set (reports_of (files (final (main busy_env)))) \<and>
   rep_requests busy_report = [giscus_request] \<and>
   filter (\<lambda>q. mentions_giscus (req_url q))
      (requests_of (events (before_call (Query container_selector)
         (trace (final (main busy_env)))))) = [giscus_request] \<and>
   rep_consoleLogs busy_report =
      consoles_of (events (before_call (WriteFileSync report_path) (trace (final (main busy_env)))))"
proof -
  have h: "busy_report \<in> set (reports_of (files (final (main busy_env))))"
    by (simp add: busy_run)
  have "rep_requests busy_report = [giscus_request]"
    by (simp add: busy_report_def build_report_def)
  with report_lists_filtered_before_container_query [OF h] h show ?thesis by simp
qed

text \<open>
  C10. In a report that was written, \<^verbatim>\<open>giscusScript\<close> is \<^verbatim>\<open>found\<close> when the query of line 64
  returned an element handle and \<^verbatim>\<open>not found\<close> when it returned \<^verbatim>\<open>null\<close>, and \<^verbatim>\<open>giscusIframe\<close>
  likewise for the query of line 95; a report is written only if both queries returned.
\<close>

theorem report_found_fields:
  assumes "r \<in> set (reports_of (files (final (main env))))"
  shows "(snd (query_script_r env) = Inr (Some ElementHandle) \<and> rep_giscusScript r = ''found'' \<or>
          snd (query_script_r env) = Inr None \<and> rep_giscusScript r = ''not found'') \<and>
         (snd (query_iframe_r env) = Inr (Some ElementHandle) \<and> rep_giscusIframe r = ''found'' \<or>
          snd (query_iframe_r env) = Inr None \<and> rep_giscusIframe r = ''not found'') \<and>
         ((rep_giscusScript r = ''found'') = (snd (query_script_r env) = Inr (Some ElementHandle))) \<and>
         ((rep_giscusIframe r = ''found'') = (snd (query_iframe_r env) = Inr (Some ElementHandle)))"
proof -
  from assms obtain gs gi greq gres and s1 :: st where w:
    "r = build_report env gs gi greq gres (consoleLogs s1) (pageErrors s1)"
    "snd (query_script_r env) = Inr gs" "snd (query_iframe_r env) = Inr gi"
    by (rule report_written) blast
  have h: "x = None \<or> x = Some ElementHandle" for x :: "handle option"
    by (cases x) (auto intro: handle.exhaust)
  from h [of gs] h [of gi] w show ?thesis
    by (auto simp: build_report_def)
qed

theorem report_found_fields_witness:
  "busy_report \<in> set (reports_of (files (final (main busy_env)))) \<and>
   snd (query_script_r busy_env) = Inr (Some ElementHandle) \<and>
   rep_giscusScript busy_report = ''found'' \<and>
   snd (query_iframe_r busy_env) = Inr None \<and>
   rep_giscusIframe busy_report = ''not found''"
proof -
  have h: "busy_report \<in> set (reports_of (files (final (main busy_env))))"
    by (simp add: busy_run)
  have q: "snd (query_script_r busy_env) = Inr (Some ElementHandle)"
    "snd (query_iframe_r busy_env) = Inr None"
    by (simp_all add: busy_env_def quiet_env_def)
  from report_found_fields [OF h] h q show ?thesis by simp
qed

end
